theory Spec2Isabelle
  imports
    Complex_Main
    "HOL-Library.Word"
    "HOL-Library.Char_ord"
    "HOL-Library.List_Lexorder"
    "HOL-Library.Multiset"
begin

unbundle bit_operations_syntax

section \<open>Data model of ui/selgame.cpp\<close>

text \<open>
  Narrow strings (\<open>std::string\<close>, \<open>char const *\<close>, \<open>std::string_view\<close>) are
  \<^typ>\<open>string\<close>; their \<open>operator<\<close> is the byte-wise lexicographic order, which is
  \<open>(<)\<close> on \<^typ>\<open>char list\<close>.  Wide strings (\<open>std::wstring\<close>) and UCS-4 strings
  (\<open>std::u32string\<close>) are lists of code units.
\<close>

type_synonym wstring = "nat list"
type_synonym u32string = "nat list"

text \<open>
  The fields of \<open>game_driver\<close> that selgame.cpp reads.  \<open>fullname\<close> is
  \<open>driver.type.fullname()\<close>, \<open>is_bios_root\<close> is
  \<open>driver.flags & machine_flags::IS_BIOS_ROOT\<close>.
\<close>

record game_driver =
  name :: string
  parent :: string
  manufacturer :: string
  year :: string
  fullname :: string
  is_bios_root :: bool

text \<open>
  \<open>ui_system_info\<close> is declared in ui/utils.h, which is not among the sources; the
  fields are the ones selgame.cpp reads and writes.  The constructor call
  \<open>ui_system_info(driver, x, false)\<close> sets \<open>driver\<close>, \<open>index\<close> and \<open>available\<close> and
  leaves every other field empty, \<open>is_clone\<close> false.
\<close>

record ui_system_info =
  driver :: game_driver
  index :: nat
  available :: bool
  is_clone :: bool
  description :: string
  parent :: string
  reading_description :: wstring
  reading_parent :: wstring
  ucs_shortname :: u32string
  ucs_description :: u32string
  ucs_reading_description :: u32string
  ucs_manufacturer_description :: u32string
  ucs_manufacturer_reading_description :: u32string
  ucs_default_description :: u32string
  ucs_manufacturer_default_description :: u32string

definition new_system_info :: "game_driver \<Rightarrow> nat \<Rightarrow> bool \<Rightarrow> ui_system_info" where
  "new_system_info d i a =
     \<lparr> driver = d, index = i, available = a, is_clone = False,
       description = [], parent = [],
       reading_description = [], reading_parent = [],
       ucs_shortname = [], ucs_description = [], ucs_reading_description = [],
       ucs_manufacturer_description = [], ucs_manufacturer_reading_description = [],
       ucs_default_description = [], ucs_manufacturer_default_description = [] \<rparr>"

text \<open>
  Modelled from the spec: \<open>machine_filter_data\<close> is declared outside the sources.  The
  spec gives its interface (\<open>add_manufacturer\<close>, \<open>add_year\<close>, \<open>finalize\<close>): it
  accumulates manufacturer and year strings and the finalise step sorts and dedups them.
\<close>

record machine_filter_data =
  manufacturers :: "string list"
  years :: "string list"

definition new_filter_data :: machine_filter_data where
  "new_filter_data = \<lparr> manufacturers = [], years = [] \<rparr>"

definition add_manufacturer :: "string \<Rightarrow> machine_filter_data \<Rightarrow> machine_filter_data" where
  "add_manufacturer m f = f\<lparr> manufacturers := manufacturers f @ [m] \<rparr>"

definition add_year :: "string \<Rightarrow> machine_filter_data \<Rightarrow> machine_filter_data" where
  "add_year y f = f\<lparr> years := years f @ [y] \<rparr>"

definition finalise :: "machine_filter_data \<Rightarrow> machine_filter_data" where
  "finalise f = f\<lparr> manufacturers := sort (remdups (manufacturers f)),
                    years := sort (remdups (years f)) \<rparr>"

text \<open>
  The background thread object: the strings its closure captured, and how many of the
  eight pipeline stages of \<open>do_cache_data\<close> it has completed (its program counter).
\<close>

record build_thread =
  datpath :: string
  titles :: string
  stages_done :: nat

record persistent_data =
  m_thread :: "build_thread option"
  m_started :: bool
  m_available :: "32 word"
  m_sorted_list :: "ui_system_info list"
  m_filter_data :: machine_filter_data
  m_bios_count :: int

subsection \<open>The availability mask\<close>

definition AVAIL_NONE :: "32 word" where "AVAIL_NONE = 0"
definition AVAIL_SORTED_LIST :: "32 word" where "AVAIL_SORTED_LIST = push_bit 0 1"
definition AVAIL_BIOS_COUNT :: "32 word" where "AVAIL_BIOS_COUNT = push_bit 1 1"
definition AVAIL_UCS_SHORTNAME :: "32 word" where "AVAIL_UCS_SHORTNAME = push_bit 2 1"
definition AVAIL_UCS_DESCRIPTION :: "32 word" where "AVAIL_UCS_DESCRIPTION = push_bit 3 1"
definition AVAIL_UCS_MANUF_DESC :: "32 word" where "AVAIL_UCS_MANUF_DESC = push_bit 4 1"
definition AVAIL_UCS_DFLT_DESC :: "32 word" where "AVAIL_UCS_DFLT_DESC = push_bit 5 1"
definition AVAIL_UCS_MANUF_DFLT_DESC :: "32 word" where
  "AVAIL_UCS_MANUF_DFLT_DESC = push_bit 6 1"
definition AVAIL_FILTER_DATA :: "32 word" where "AVAIL_FILTER_DATA = push_bit 7 1"

text \<open>The constructor \<open>persistent_data()\<close>.\<close>

definition new_persistent_data :: persistent_data where
  "new_persistent_data =
     \<lparr> m_thread = None, m_started = False, m_available = AVAIL_NONE,
       m_sorted_list = [], m_filter_data = new_filter_data, m_bios_count = 0 \<rparr>"

definition is_available :: "32 word \<Rightarrow> persistent_data \<Rightarrow> bool" where
  "is_available desired s \<longleftrightarrow> (m_available s AND desired) = desired"

text \<open>\<open>notify_available\<close>: \<open>m_available.fetch_or(v)\<close> under the mutex.\<close>

definition notify_available :: "32 word \<Rightarrow> persistent_data \<Rightarrow> persistent_data" where
  "notify_available v s = s\<lparr> m_available := m_available s OR v \<rparr>"


section \<open>Code outside the sources\<close>

text \<open>
  Library and framework functions that selgame.cpp calls but that are defined elsewhere:
  \<^item> \<open>coll_compare\<close> is \<open>std::collate<wchar_t>::compare\<close> of the global locale;
  \<^item> \<open>wstring_from_utf8\<close>, \<open>ustr_from_utf8\<close>, \<open>normalize_unicode\<close> (always called
    with form D and case folding) and \<open>strtrimspace\<close> are the string helpers;
  \<^item> \<open>edit_distance\<close> is \<open>util::edit_distance\<close>;
  \<^item> \<open>driver_list\<close> is the catalog behind \<open>driver_list::total()\<close> and
    \<open>driver_list::driver(x)\<close>, and \<open>empty_index\<close> the position of
    \<open>GAME_NAME(___empty)\<close> in it;
  \<^item> \<open>open_file datpath titles\<close> is what opening \<open>titles\<close> on the search path
    \<open>datpath\<close> gives: \<open>None\<close> when it fails, otherwise the buffers that the successive
    \<open>file.gets(readbuf, 1024)\<close> calls return, without the terminating NUL.
\<close>

record externals =
  coll_compare :: "wstring \<Rightarrow> wstring \<Rightarrow> int"
  wstring_from_utf8 :: "string \<Rightarrow> wstring"
  ustr_from_utf8 :: "string \<Rightarrow> u32string"
  normalize_unicode :: "string \<Rightarrow> string"
  strtrimspace :: "string \<Rightarrow> string"
  edit_distance :: "u32string \<Rightarrow> u32string \<Rightarrow> real"
  driver_list :: "game_driver list"
  empty_index :: nat
  open_file :: "string \<Rightarrow> string \<Rightarrow> string list option"

text \<open>
  Modelled from the spec: \<open>driver_list::find\<close> is defined outside the sources.  The spec's
  catalog interface is \<open>find_by_shortname(name) -> index | not-found\<close>; not-found is
  \<open>-1\<close>, as the callers' test \<open>0 <= parentindex\<close> expects.
\<close>

fun find_from :: "game_driver list \<Rightarrow> string \<Rightarrow> int \<Rightarrow> int" where
  "find_from [] n i = - 1"
| "find_from (d # ds) n i = (if name d = n then i else find_from ds n (i + 1))"

definition driver_list_find :: "externals \<Rightarrow> string \<Rightarrow> int" where
  "driver_list_find E n = find_from (driver_list E) n 0"

subsection \<open>std::stable_sort\<close>

text \<open>
  \<open>std::stable_sort(first, last, comp)\<close> as the GNU C++ library implements it
  (\<open>bits/stl_algo.h\<close>), with its temporary buffer allocated: the range is cut at
  \<open>middle = first + (len + 1) / 2\<close>, each half is sorted by
  \<open>__merge_sort_with_buffer\<close> and the halves are merged by \<open>__merge_adaptive\<close>.
  The library promises a sorted result only for a comparator that is a strict weak
  ordering.  The comparator of \<open>do_cache_data\<close> is none (two systems with one
  display name tie with each other and with each other's clones, yet a parent is ordered
  before its own clone), so the list it gets depends on which pairs the algorithm compares,
  and the model follows the algorithm comparison by comparison.  A range is a list; the
  comparator \<open>lt a b\<close> is \<open>comp(a, b)\<close>.

  \<^item> \<open>__unguarded_linear_insert(last, comp)\<close> takes the value at \<open>last\<close> and walks back
    over the elements in front of it while \<open>comp(val, *next)\<close>, shifting them up by one,
    and puts the value where the walk stops.  \<open>front\<close> is the range before \<open>last\<close>.
  \<^item> \<open>__insertion_sort\<close> goes through the range from the second element on: an element
    that is \<open>comp\<close> the first one is moved to the very front, any other is inserted by
    \<open>__unguarded_linear_insert\<close>.
  \<^item> \<open>__chunk_insertion_sort\<close> sorts chunks of \<open>_S_chunk_size = 7\<close> elements and the
    rest by \<open>__insertion_sort\<close>.
  \<^item> \<open>__move_merge\<close> merges two ranges from the front, taking from the second range
    when \<open>comp(*first2, *first1)\<close> and from the first one otherwise.
  \<^item> \<open>__merge_sort_loop\<close> merges the runs of \<open>step_size\<close> elements two by two; the
    last merge takes what is left, its first run \<open>min(last - first, step_size)\<close> long.
  \<^item> \<open>__merge_sort_with_buffer\<close> sorts the chunks, then runs \<open>__merge_sort_loop\<close>
    twice per round, into the buffer and back, doubling the step each time, while
    \<open>step_size < len\<close>.
  \<^item> \<open>__merge_adaptive\<close> moves the first range to the buffer and merges forwards
    (\<open>__move_merge_adaptive\<close>, the loop of \<open>__move_merge\<close>) when \<open>len1 <= len2\<close>;
    otherwise it moves the second range to the buffer and merges from the back
    (\<open>__move_merge_adaptive_backward\<close>): of the two last elements it puts the one of the
    first range at the end when \<open>comp(*last2, *last1)\<close>, the one of the second range
    otherwise.  \<open>merge_from_back\<close> is that loop on the two ranges read from their ends;
    it gives the merged range from its end.
\<close>

definition S_chunk_size :: nat where
  "S_chunk_size = 7"

definition unguarded_linear_insert :: "('a \<Rightarrow> 'a \<Rightarrow> bool) \<Rightarrow> 'a list \<Rightarrow> 'a \<Rightarrow> 'a list" where
  "unguarded_linear_insert lt front val =
     rev (dropWhile (lt val) (rev front)) @ val # rev (takeWhile (lt val) (rev front))"

definition insertion_step :: "('a \<Rightarrow> 'a \<Rightarrow> bool) \<Rightarrow> 'a list \<Rightarrow> 'a \<Rightarrow> 'a list" where
  "insertion_step lt front val =
     (if lt val (hd front) then val # front else unguarded_linear_insert lt front val)"

definition insertion_sort :: "('a \<Rightarrow> 'a \<Rightarrow> bool) \<Rightarrow> 'a list \<Rightarrow> 'a list" where
  "insertion_sort lt xs =
     (case xs of [] \<Rightarrow> [] | x # rest \<Rightarrow> foldl (insertion_step lt) [x] rest)"

function chunk_insertion_sort :: "('a \<Rightarrow> 'a \<Rightarrow> bool) \<Rightarrow> 'a list \<Rightarrow> 'a list" where
  "chunk_insertion_sort lt xs =
     (if S_chunk_size \<le> length xs
      then insertion_sort lt (take S_chunk_size xs)
             @ chunk_insertion_sort lt (drop S_chunk_size xs)
      else insertion_sort lt xs)"
  by pat_completeness auto
termination
  by (relation "measure (\<lambda>(lt, xs). length xs)") (auto simp add: S_chunk_size_def)

fun move_merge :: "('a \<Rightarrow> 'a \<Rightarrow> bool) \<Rightarrow> 'a list \<Rightarrow> 'a list \<Rightarrow> 'a list" where
  "move_merge lt [] ys = ys"
| "move_merge lt xs [] = xs"
| "move_merge lt (x # xs) (y # ys) =
     (if lt y x then y # move_merge lt (x # xs) ys else x # move_merge lt xs (y # ys))"

text \<open>
  The step is never 0 (it starts at 7 and doubles); the test \<open>0 < step_size\<close> is only
  there for the recursion to end on every argument.
\<close>

function merge_sort_loop :: "('a \<Rightarrow> 'a \<Rightarrow> bool) \<Rightarrow> nat \<Rightarrow> 'a list \<Rightarrow> 'a list" where
  "merge_sort_loop lt step_size xs =
     (if 0 < step_size \<and> 2 * step_size \<le> length xs
      then move_merge lt (take step_size xs) (take step_size (drop step_size xs))
             @ merge_sort_loop lt step_size (drop (2 * step_size) xs)
      else let step_size = min (length xs) step_size
           in move_merge lt (take step_size xs) (drop step_size xs))"
  by pat_completeness auto
termination
  by (relation "measure (\<lambda>(lt, step_size, xs). length xs)") auto

function merge_sort_steps :: "('a \<Rightarrow> 'a \<Rightarrow> bool) \<Rightarrow> nat \<Rightarrow> nat \<Rightarrow> 'a list \<Rightarrow> 'a list" where
  "merge_sort_steps lt len step_size xs =
     (if 0 < step_size \<and> step_size < len
      then merge_sort_steps lt len (4 * step_size)
             (merge_sort_loop lt (2 * step_size) (merge_sort_loop lt step_size xs))
      else xs)"
  by pat_completeness auto
termination
  by (relation "measure (\<lambda>(lt, len, step_size, xs). len - step_size)") auto

definition merge_sort_with_buffer :: "('a \<Rightarrow> 'a \<Rightarrow> bool) \<Rightarrow> 'a list \<Rightarrow> 'a list" where
  "merge_sort_with_buffer lt xs =
     merge_sort_steps lt (length xs) S_chunk_size (chunk_insertion_sort lt xs)"

definition move_merge_adaptive :: "('a \<Rightarrow> 'a \<Rightarrow> bool) \<Rightarrow> 'a list \<Rightarrow> 'a list \<Rightarrow> 'a list" where
  "move_merge_adaptive lt buffer ys = move_merge lt buffer ys"

fun merge_from_back :: "('a \<Rightarrow> 'a \<Rightarrow> bool) \<Rightarrow> 'a list \<Rightarrow> 'a list \<Rightarrow> 'a list" where
  "merge_from_back lt [] rys = rys"
| "merge_from_back lt rxs [] = rxs"
| "merge_from_back lt (x # rxs) (y # rys) =
     (if lt y x then x # merge_from_back lt rxs (y # rys)
      else y # merge_from_back lt (x # rxs) rys)"

definition move_merge_adaptive_backward ::
  "('a \<Rightarrow> 'a \<Rightarrow> bool) \<Rightarrow> 'a list \<Rightarrow> 'a list \<Rightarrow> 'a list" where
  "move_merge_adaptive_backward lt xs buffer = rev (merge_from_back lt (rev xs) (rev buffer))"

definition merge_adaptive :: "('a \<Rightarrow> 'a \<Rightarrow> bool) \<Rightarrow> 'a list \<Rightarrow> 'a list \<Rightarrow> 'a list" where
  "merge_adaptive lt xs ys =
     (if length xs \<le> length ys then move_merge_adaptive lt xs ys
      else move_merge_adaptive_backward lt xs ys)"

definition stable_sort :: "('a \<Rightarrow> 'a \<Rightarrow> bool) \<Rightarrow> 'a list \<Rightarrow> 'a list" where
  "stable_sort lt xs =
     (if xs = [] then []
      else let middle = (length xs + 1) div 2
           in merge_adaptive lt (merge_sort_with_buffer lt (take middle xs))
                (merge_sort_with_buffer lt (drop middle xs)))"

subsection \<open>std::lower_bound and vector::erase\<close>

text \<open>
  \<open>std::lower_bound(first, first + len, v, comp)\<close> as the library implements it: a
  binary search that halves \<open>len\<close>; \<open>below a\<close> is \<open>comp(a, v)\<close>.
\<close>

function lower_bound :: "('a \<Rightarrow> bool) \<Rightarrow> 'a list \<Rightarrow> nat \<Rightarrow> nat \<Rightarrow> nat" where
  "lower_bound below xs first len =
     (if len = 0 then first
      else let half = len div 2; middle = first + half in
        if below (xs ! middle) then lower_bound below xs (middle + 1) (len - half - 1)
        else lower_bound below xs first half)"
  by pat_completeness auto
termination
  by (relation "measure (\<lambda>(below, xs, first, len). len)") auto

text \<open>\<open>vector::erase(begin() + i)\<close>.\<close>

definition erase :: "nat \<Rightarrow> 'a list \<Rightarrow> 'a list" where
  "erase i xs = take i xs @ drop (Suc i) xs"

section \<open>The build pipeline\<close>

subsection \<open>populate_list\<close>

text \<open>
  The test \<open>(driver.parent[0] != '0') || driver.parent[1]\<close> on a C string: the parent
  field is anything but \<open>"0"\<close>.
\<close>

fun has_parent :: "string \<Rightarrow> bool" where
  "has_parent [] = True"
| "has_parent (c # cs) = (c \<noteq> CHR ''0'' \<or> cs \<noteq> [])"

text \<open>
  One iteration of the loop of \<open>populate_list\<close>, split in the entry it appends and
  the counters it updates.  \<open>&driver != &GAME_NAME(___empty)\<close> compares addresses, that
  is positions in the catalog.
\<close>

definition populate_entry :: "externals \<Rightarrow> bool \<Rightarrow> nat \<Rightarrow> ui_system_info" where
  "populate_entry E copydesc x =
     (let d = driver_list E ! x;
          ins = new_system_info d x False
      in if x \<noteq> empty_index E then
           let ins1 =
                 (if has_parent (game_driver.parent d) then
                    let parentindex = driver_list_find E (game_driver.parent d) in
                    if copydesc then
                      (if 0 \<le> parentindex then
                         let parentdriver = driver_list E ! nat parentindex in
                         ins\<lparr> is_clone := \<not> is_bios_root parentdriver,
                              parent := fullname parentdriver \<rparr>
                       else ins\<lparr> is_clone := False, parent := game_driver.parent d \<rparr>)
                    else
                      ins\<lparr> is_clone := (0 \<le> parentindex \<and>
                                \<not> is_bios_root (driver_list E ! nat parentindex)) \<rparr>
                  else ins)
           in if copydesc then ins1\<lparr> description := fullname d \<rparr> else ins1
         else ins)"

definition populate_list_step :: "externals \<Rightarrow> bool \<Rightarrow> nat \<Rightarrow> persistent_data \<Rightarrow> persistent_data" where
  "populate_list_step E copydesc x s =
     (let d = driver_list E ! x;
          s1 = s\<lparr> m_sorted_list := m_sorted_list s @ [populate_entry E copydesc x] \<rparr>
      in if x \<noteq> empty_index E then
           s1\<lparr> m_bios_count := (if is_bios_root d then m_bios_count s1 + 1 else m_bios_count s1),
               m_filter_data := add_year (year d) (add_manufacturer (manufacturer d) (m_filter_data s1)) \<rparr>
         else s1)"

definition populate_list :: "externals \<Rightarrow> bool \<Rightarrow> persistent_data \<Rightarrow> persistent_data" where
  "populate_list E copydesc s =
     fold (populate_list_step E copydesc) [0 ..< length (driver_list E)] s"

subsection \<open>load_titles\<close>

datatype warning =
    Empty_description string
  | Multiple_descriptions string string string
  | Empty_reading string

definition TAB :: char where "TAB = CHR 0x09"

definition is_eoln :: "char \<Rightarrow> bool" where
  "is_eoln ch \<longleftrightarrow> ch = CHR 0x00 \<or> ch = CHR 0x0A \<or> ch = CHR 0x0D"

text \<open>The comparator of both \<open>std::lower_bound\<close> calls: \<open>a.driver->name < b\<close>.\<close>

definition name_below :: "string \<Rightarrow> ui_system_info \<Rightarrow> bool" where
  "name_below b a \<longleftrightarrow> name (driver a) < b"

definition find_system :: "string \<Rightarrow> ui_system_info list \<Rightarrow> nat" where
  "find_system b xs = lower_bound (name_below b) xs 0 (length xs)"

text \<open>
  The pieces of a buffer that the loop body delimits with \<open>std::find\<close>:
  \<open>line_of readbuf\<close> is \<open>[readbuf, eoln)\<close>; \<open>upto_tab\<close> runs to the next tab (or the
  end), \<open>after_tab\<close> starts behind it (\<open>std::next\<close> of the tab found).
\<close>

definition line_of :: "string \<Rightarrow> string" where
  "line_of readbuf = takeWhile (\<lambda>ch. \<not> is_eoln ch) readbuf"

definition upto_tab :: "string \<Rightarrow> string" where
  "upto_tab str = takeWhile (\<lambda>ch. ch \<noteq> TAB) str"

definition after_tab :: "string \<Rightarrow> string" where
  "after_tab str = tl (dropWhile (\<lambda>ch. ch \<noteq> TAB) str)"

text \<open>
  The body of the \<open>while (file.gets(...))\<close> loop for one buffer.  \<open>TAB \<notin> set line\<close>
  is \<open>eoln == split\<close>, \<open>TAB \<notin> set (after_tab line)\<close> is \<open>eoln == descend\<close>.  The
  state is the list and the warnings printed so far.
\<close>

definition load_title_line ::
  "externals \<Rightarrow> string \<Rightarrow> ui_system_info list \<times> warning list \<Rightarrow> ui_system_info list \<times> warning list" where
  "load_title_line E readbuf st =
     (let xs = fst st; warns = snd st;
          line = line_of readbuf
      in if TAB \<notin> set line then st
         else
           let shortname = upto_tab line;
               found = find_system shortname xs
           in if found = length xs \<or> shortname \<noteq> name (driver (xs ! found)) then st
              else
                let desc = strtrimspace E (upto_tab (after_tab line));
                    st1 =
                      (if desc = [] then (xs, warns @ [Empty_description shortname])
                       else if description (xs ! found) \<noteq> [] then
                         (xs, warns @ [Multiple_descriptions shortname (description (xs ! found)) desc])
                       else (xs[found := (xs ! found)\<lparr> description := desc \<rparr>], warns))
                in if TAB \<notin> set (after_tab line) then st1
                   else
                     let reading = strtrimspace E (upto_tab (after_tab (after_tab line)));
                         ys = fst st1
                     in if reading = [] then (ys, snd st1 @ [Empty_reading shortname])
                        else
                          (ys[found := (ys ! found)
                                \<lparr> reading_description := wstring_from_utf8 E reading,
                                  ucs_reading_description :=
                                    ustr_from_utf8 E (normalize_unicode E reading),
                                  ucs_manufacturer_reading_description :=
                                    ustr_from_utf8 E (normalize_unicode E
                                      (manufacturer (driver (ys ! found)) @ '' '' @ reading)) \<rparr>],
                           snd st1))"

text \<open>The closing loop of \<open>load_titles\<close>: fill in untranslated descriptions.\<close>

definition fill_description :: "ui_system_info \<Rightarrow> ui_system_info" where
  "fill_description info =
     (if description info = [] then info\<lparr> description := fullname (driver info) \<rparr> else info)"

definition load_title_lines ::
  "externals \<Rightarrow> string list \<Rightarrow> ui_system_info list \<times> warning list \<Rightarrow> ui_system_info list \<times> warning list" where
  "load_title_lines E file st = fold (load_title_line E) file st"

definition load_titles ::
  "externals \<Rightarrow> string list \<Rightarrow> ui_system_info list \<Rightarrow> ui_system_info list \<times> warning list" where
  "load_titles E file xs =
     (let st = load_title_lines E file (xs, [])
      in (map fill_description (fst st), snd st))"

subsection \<open>populate_parents\<close>

definition populate_parents_step :: "nat \<Rightarrow> ui_system_info list \<Rightarrow> ui_system_info list" where
  "populate_parents_step i xs =
     (let info = xs ! i; p = game_driver.parent (driver info)
      in if has_parent p then
           let found = find_system p xs
           in if found \<noteq> length xs then
                xs[i := info\<lparr> parent := description (xs ! found),
                              reading_parent := reading_description (xs ! found) \<rparr>]
              else xs[i := info\<lparr> parent := p \<rparr>]
         else xs)"

definition populate_parents :: "ui_system_info list \<Rightarrow> ui_system_info list" where
  "populate_parents xs = fold populate_parents_step [0 ..< length xs] xs"

subsection \<open>The sort comparator\<close>

definition compare_names :: "externals \<Rightarrow> wstring \<Rightarrow> wstring \<Rightarrow> bool" where
  "compare_names E wx wy \<longleftrightarrow> 0 > coll_compare E wx wy"

text \<open>The lambda passed to \<open>std::stable_sort\<close> in \<open>do_cache_data\<close>.\<close>

definition compare_systems :: "externals \<Rightarrow> ui_system_info \<Rightarrow> ui_system_info \<Rightarrow> bool" where
  "compare_systems E lhs rhs =
     (let x = driver lhs; y = driver rhs
      in if \<not> is_clone lhs \<and> \<not> is_clone rhs then
           compare_names E
             (if reading_description lhs = [] then wstring_from_utf8 E (description lhs)
              else reading_description lhs)
             (if reading_description rhs = [] then wstring_from_utf8 E (description rhs)
              else reading_description rhs)
         else if is_clone lhs \<and> is_clone rhs then
           (if game_driver.parent x = game_driver.parent y then
              compare_names E
                (if reading_description lhs = [] then wstring_from_utf8 E (description lhs)
                 else reading_description lhs)
                (if reading_description rhs = [] then wstring_from_utf8 E (description rhs)
                 else reading_description rhs)
            else
              compare_names E
                (if reading_parent lhs = [] then wstring_from_utf8 E (parent lhs)
                 else reading_parent lhs)
                (if reading_parent rhs = [] then wstring_from_utf8 E (parent rhs)
                 else reading_parent rhs))
         else if \<not> is_clone lhs \<and> is_clone rhs then
           (if name x = game_driver.parent y then True
            else
              compare_names E
                (if reading_description lhs = [] then wstring_from_utf8 E (description lhs)
                 else reading_description lhs)
                (if reading_parent rhs = [] then wstring_from_utf8 E (parent rhs)
                 else reading_parent rhs))
         else
           (if game_driver.parent x = name y then False
            else
              compare_names E
                (if reading_parent lhs = [] then wstring_from_utf8 E (parent lhs)
                 else reading_parent lhs)
                (if reading_description rhs = [] then wstring_from_utf8 E (description rhs)
                 else reading_description rhs)))"

subsection \<open>The UCS-4 conversion passes\<close>

definition ucs :: "externals \<Rightarrow> string \<Rightarrow> u32string" where
  "ucs E str = ustr_from_utf8 E (normalize_unicode E str)"

definition set_ucs_shortname :: "externals \<Rightarrow> ui_system_info \<Rightarrow> ui_system_info" where
  "set_ucs_shortname E info = info\<lparr> ucs_shortname := ucs E (name (driver info)) \<rparr>"

definition set_ucs_description :: "externals \<Rightarrow> ui_system_info \<Rightarrow> ui_system_info" where
  "set_ucs_description E info = info\<lparr> ucs_description := ucs E (description info) \<rparr>"

definition set_ucs_manufacturer_description :: "externals \<Rightarrow> ui_system_info \<Rightarrow> ui_system_info" where
  "set_ucs_manufacturer_description E info =
     info\<lparr> ucs_manufacturer_description :=
             ucs E (manufacturer (driver info) @ '' '' @ description info) \<rparr>"

definition set_ucs_default_description :: "externals \<Rightarrow> ui_system_info \<Rightarrow> ui_system_info" where
  "set_ucs_default_description E info =
     (if description info \<noteq> fullname (driver info) then
        info\<lparr> ucs_default_description := ucs E (fullname (driver info)) \<rparr>
      else info)"

definition set_ucs_manufacturer_default_description ::
  "externals \<Rightarrow> ui_system_info \<Rightarrow> ui_system_info" where
  "set_ucs_manufacturer_default_description E info =
     (if description info \<noteq> fullname (driver info) then
        info\<lparr> ucs_manufacturer_default_description :=
                ucs E (manufacturer (driver info) @ '' '' @ fullname (driver info)) \<rparr>
      else info)"

subsection \<open>do_cache_data\<close>

text \<open>
  \<open>do_cache_data\<close> is cut at its eight \<open>notify_available\<close> calls: a stage is the code
  up to and including one call, in the order of the source.  \<open>try_titles\<close> is the local
  constant of that name.
\<close>

definition try_titles :: "externals \<Rightarrow> string \<Rightarrow> string \<Rightarrow> bool" where
  "try_titles E dp ti \<longleftrightarrow> ti \<noteq> [] \<and> open_file E dp ti \<noteq> None"

definition stage_bios_count :: "externals \<Rightarrow> string \<Rightarrow> string \<Rightarrow> persistent_data \<Rightarrow> persistent_data" where
  "stage_bios_count E dp ti s =
     notify_available AVAIL_BIOS_COUNT (populate_list E (\<not> try_titles E dp ti) s)"

text \<open>
  The second stage in its four parts: the titles (only when \<open>try_titles\<close>), the erase of
  the "empty" driver, the sort, the notification.
\<close>

definition load_titles_and_parents ::
  "externals \<Rightarrow> string \<Rightarrow> string \<Rightarrow> persistent_data \<Rightarrow> persistent_data" where
  "load_titles_and_parents E dp ti s =
     (if try_titles E dp ti then
        (case open_file E dp ti of
           None \<Rightarrow> s
         | Some titles_file \<Rightarrow>
             s\<lparr> m_sorted_list :=
                  populate_parents (fst (load_titles E titles_file (m_sorted_list s))) \<rparr>)
      else s)"

definition erase_empty :: "externals \<Rightarrow> persistent_data \<Rightarrow> persistent_data" where
  "erase_empty E s = s\<lparr> m_sorted_list := erase (empty_index E) (m_sorted_list s) \<rparr>"

definition sort_systems :: "externals \<Rightarrow> persistent_data \<Rightarrow> persistent_data" where
  "sort_systems E s = s\<lparr> m_sorted_list := stable_sort (compare_systems E) (m_sorted_list s) \<rparr>"

definition stage_sorted_list :: "externals \<Rightarrow> string \<Rightarrow> string \<Rightarrow> persistent_data \<Rightarrow> persistent_data" where
  "stage_sorted_list E dp ti s =
     notify_available AVAIL_SORTED_LIST
       (sort_systems E (erase_empty E (load_titles_and_parents E dp ti s)))"

definition stage_filter_data :: "persistent_data \<Rightarrow> persistent_data" where
  "stage_filter_data s =
     notify_available AVAIL_FILTER_DATA (s\<lparr> m_filter_data := finalise (m_filter_data s) \<rparr>)"

definition stage_ucs_shortname :: "externals \<Rightarrow> persistent_data \<Rightarrow> persistent_data" where
  "stage_ucs_shortname E s =
     notify_available AVAIL_UCS_SHORTNAME
       (s\<lparr> m_sorted_list := map (set_ucs_shortname E) (m_sorted_list s) \<rparr>)"

definition stage_ucs_description :: "externals \<Rightarrow> persistent_data \<Rightarrow> persistent_data" where
  "stage_ucs_description E s =
     notify_available AVAIL_UCS_DESCRIPTION
       (s\<lparr> m_sorted_list := map (set_ucs_description E) (m_sorted_list s) \<rparr>)"

definition stage_ucs_manuf_desc :: "externals \<Rightarrow> persistent_data \<Rightarrow> persistent_data" where
  "stage_ucs_manuf_desc E s =
     notify_available AVAIL_UCS_MANUF_DESC
       (s\<lparr> m_sorted_list := map (set_ucs_manufacturer_description E) (m_sorted_list s) \<rparr>)"

definition stage_ucs_dflt_desc :: "externals \<Rightarrow> string \<Rightarrow> string \<Rightarrow> persistent_data \<Rightarrow> persistent_data" where
  "stage_ucs_dflt_desc E dp ti s =
     notify_available AVAIL_UCS_DFLT_DESC
       (if try_titles E dp ti then
          s\<lparr> m_sorted_list := map (set_ucs_default_description E) (m_sorted_list s) \<rparr>
        else s)"

definition stage_ucs_manuf_dflt_desc ::
  "externals \<Rightarrow> string \<Rightarrow> string \<Rightarrow> persistent_data \<Rightarrow> persistent_data" where
  "stage_ucs_manuf_dflt_desc E dp ti s =
     notify_available AVAIL_UCS_MANUF_DFLT_DESC
       (if try_titles E dp ti then
          s\<lparr> m_sorted_list := map (set_ucs_manufacturer_default_description E) (m_sorted_list s) \<rparr>
        else s)"

definition stages ::
  "externals \<Rightarrow> string \<Rightarrow> string \<Rightarrow> (persistent_data \<Rightarrow> persistent_data) list" where
  "stages E dp ti =
     [stage_bios_count E dp ti,
      stage_sorted_list E dp ti,
      stage_filter_data,
      stage_ucs_shortname E,
      stage_ucs_description E,
      stage_ucs_manuf_desc E,
      stage_ucs_dflt_desc E dp ti,
      stage_ucs_manuf_dflt_desc E dp ti]"

text \<open>The first \<open>k\<close> stages, and the whole function.\<close>

definition run_stages ::
  "externals \<Rightarrow> string \<Rightarrow> string \<Rightarrow> nat \<Rightarrow> persistent_data \<Rightarrow> persistent_data" where
  "run_stages E dp ti k s = fold (\<lambda>f t. f t) (take k (stages E dp ti)) s"

definition do_cache_data :: "externals \<Rightarrow> string \<Rightarrow> string \<Rightarrow> persistent_data \<Rightarrow> persistent_data" where
  "do_cache_data E dp ti s = run_stages E dp ti 8 s"

section \<open>The cache and its background thread\<close>

text \<open>
  \<open>cache_data\<close> runs under \<open>m_mutex\<close>, so it is one atomic step.  It returns the new
  state and the threads it created; \<open>dp\<close> and \<open>ti\<close> are \<open>options.history_path()\<close> and
  \<open>options.system_names()\<close>.
\<close>

definition cache_data ::
  "string \<Rightarrow> string \<Rightarrow> persistent_data \<Rightarrow> persistent_data \<times> build_thread list" where
  "cache_data dp ti s =
     (if \<not> m_started s then
        let t = \<lparr> datpath = dp, titles = ti, stages_done = 0 \<rparr>
        in (s\<lparr> m_started := True, m_thread := Some t \<rparr>, [t])
      else (s, []))"

text \<open>
  One step of the background thread: its next stage, if it has one left.
\<close>

definition builder_step :: "externals \<Rightarrow> persistent_data \<Rightarrow> persistent_data" where
  "builder_step E s =
     (case m_thread s of
        None \<Rightarrow> s
      | Some t \<Rightarrow>
          if stages_done t < length (stages E (datpath t) (titles t)) then
            ((stages E (datpath t) (titles t) ! stages_done t) s)
              \<lparr> m_thread := Some (t\<lparr> stages_done := Suc (stages_done t) \<rparr>) \<rparr>
          else s)"

text \<open>\<open>m_thread->join()\<close>: the thread runs the stages it has left.\<close>

definition join :: "externals \<Rightarrow> persistent_data \<Rightarrow> persistent_data" where
  "join E s =
     (case m_thread s of
        None \<Rightarrow> s
      | Some t \<Rightarrow> ((builder_step E) ^^ (8 - stages_done t)) s)"

definition reset_cache :: "externals \<Rightarrow> persistent_data \<Rightarrow> persistent_data" where
  "reset_cache E s =
     (let s1 = (if m_thread s \<noteq> None then join E s else s)
      in s1\<lparr> m_thread := None,
              m_started := False,
              m_available := AVAIL_NONE,
              m_sorted_list := [],
              m_filter_data := new_filter_data,
              m_bios_count := 0 \<rparr>)"

text \<open>
  What can happen to the cache: a caller calls \<open>cache_data\<close> or \<open>reset_cache\<close>, or
  the background thread completes a stage.  The accessors only read.  \<open>run\<close> gives the
  state after a sequence of events and every thread created on the way.
\<close>

datatype event = Cache_data string string | Reset_cache | Builder_step

fun step :: "externals \<Rightarrow> event \<Rightarrow> persistent_data \<Rightarrow> persistent_data \<times> build_thread list" where
  "step E (Cache_data dp ti) s = cache_data dp ti s"
| "step E Reset_cache s = (reset_cache E s, [])"
| "step E Builder_step s = (builder_step E s, [])"

fun run :: "externals \<Rightarrow> event list \<Rightarrow> persistent_data \<Rightarrow> persistent_data \<times> build_thread list" where
  "run E [] s = (s, [])"
| "run E (e # es) s =
     (let r = step E e s; r' = run E es (fst r) in (fst r', snd r @ snd r'))"

section \<open>The search ranker\<close>

text \<open>
  The members of \<open>menu_select_game\<close> that \<open>populate_search\<close> uses.  An entry of
  \<open>m_searchlist\<close> is a score and a reference into the cache's sorted list, modelled as
  the position it refers to.
\<close>

record menu_select_game =
  m_search :: string
  m_searchlist :: "(real \<times> nat) list"
  m_searched_fields :: "32 word"

text \<open>
  \<open>sorted_list()\<close> waits for \<open>AVAIL_SORTED_LIST\<close>.  On a cache state where the bit
  is not set the caller is left waiting: \<open>None\<close>.
\<close>

definition sorted_list :: "persistent_data \<Rightarrow> ui_system_info list option" where
  "sorted_list s = (if is_available AVAIL_SORTED_LIST s then Some (m_sorted_list s) else None)"

text \<open>\<open>std::min(a, b)\<close>: \<open>b\<close> when \<open>b < a\<close>, else \<open>a\<close>.\<close>

definition std_min :: "real \<Rightarrow> real \<Rightarrow> real" where
  "std_min a b = (if b < a then b else a)"

text \<open>
  The body of the loop over \<open>m_searchlist\<close>: the value of \<open>info.first\<close> after each
  block.  A \<open>double\<close> used as a condition is true when it is not zero.
\<close>

definition search_score :: "externals \<Rightarrow> 32 word \<Rightarrow> u32string \<Rightarrow> ui_system_info \<Rightarrow> real" where
  "search_score E searched ucs_search sys =
     (let first0 = 1;
          first1 =
            (if searched AND AVAIL_UCS_SHORTNAME \<noteq> 0 then
               edit_distance E ucs_search (ucs_shortname sys)
             else first0);
          first2 =
            (if first1 \<noteq> 0 \<and> ucs_reading_description sys \<noteq> [] then
               let f = std_min (edit_distance E ucs_search (ucs_reading_description sys)) first1
               in if f \<noteq> 0 then
                    std_min (edit_distance E ucs_search (ucs_manufacturer_reading_description sys)) f
                  else f
             else first1);
          first3 =
            (if first2 \<noteq> 0 \<and> searched AND AVAIL_UCS_DESCRIPTION \<noteq> 0 then
               std_min (edit_distance E ucs_search (ucs_description sys)) first2
             else first2);
          first4 =
            (if first3 \<noteq> 0 \<and> searched AND AVAIL_UCS_MANUF_DESC \<noteq> 0 then
               std_min (edit_distance E ucs_search (ucs_manufacturer_description sys)) first3
             else first3)
      in if first4 \<noteq> 0 \<and> searched AND AVAIL_UCS_DFLT_DESC \<noteq> 0
            \<and> ucs_default_description sys \<noteq> [] then
           let f = std_min (edit_distance E ucs_search (ucs_default_description sys)) first4
           in if f \<noteq> 0 \<and> searched AND AVAIL_UCS_MANUF_DFLT_DESC \<noteq> 0 then
                std_min (edit_distance E ucs_search (ucs_manufacturer_default_description sys)) f
              else f
         else first4)"

text \<open>\<open>if (m_persistent_data.is_available(d)) m_searched_fields |= d\<close>.\<close>

definition note_available :: "persistent_data \<Rightarrow> 32 word \<Rightarrow> 32 word \<Rightarrow> 32 word" where
  "note_available pd d searched = (if is_available d pd then searched OR d else searched)"

definition searched_fields :: "persistent_data \<Rightarrow> 32 word \<Rightarrow> 32 word" where
  "searched_fields pd searched =
     note_available pd AVAIL_UCS_MANUF_DFLT_DESC
       (note_available pd AVAIL_UCS_DFLT_DESC
         (note_available pd AVAIL_UCS_MANUF_DESC
           (note_available pd AVAIL_UCS_DESCRIPTION
             (note_available pd AVAIL_UCS_SHORTNAME searched))))"

text \<open>The search list as the first block leaves it.\<close>

definition ensure_searchlist :: "persistent_data \<Rightarrow> menu_select_game \<Rightarrow> (real \<times> nat) list option" where
  "ensure_searchlist pd m =
     (if m_searchlist m = [] then
        (case sorted_list pd of
           None \<Rightarrow> None
         | Some sorted_vec \<Rightarrow> Some (map (\<lambda>i. (1, i)) [0 ..< length sorted_vec]))
      else Some (m_searchlist m))"

text \<open>The scores the loop writes, in the order of the search list.\<close>

definition score_searchlist ::
  "externals \<Rightarrow> persistent_data \<Rightarrow> 32 word \<Rightarrow> u32string \<Rightarrow> (real \<times> nat) list \<Rightarrow> (real \<times> nat) list" where
  "score_searchlist E pd searched ucs_search sl =
     map (\<lambda>info. (search_score E searched ucs_search (m_sorted_list pd ! snd info), snd info)) sl"

definition populate_search ::
  "externals \<Rightarrow> persistent_data \<Rightarrow> menu_select_game \<Rightarrow> menu_select_game option" where
  "populate_search E pd m =
     (case ensure_searchlist pd m of
        None \<Rightarrow> None
      | Some sl \<Rightarrow>
          let ucs_search = ucs E (m_search m);
              searched = searched_fields pd (m_searched_fields m)
          in Some (m\<lparr> m_searchlist :=
                         stable_sort (\<lambda>lhs rhs. fst lhs < fst rhs)
                           (score_searchlist E pd searched ucs_search sl),
                       m_searched_fields := searched \<rparr>))"

section \<open>The order of publication\<close>

text \<open>
  The availability bits in the order in which the pipeline is to publish them, and the
  mask after the first \<open>k\<close> of them.
\<close>

definition publish_order :: "32 word list" where
  "publish_order =
     [AVAIL_BIOS_COUNT, AVAIL_SORTED_LIST, AVAIL_FILTER_DATA, AVAIL_UCS_SHORTNAME,
      AVAIL_UCS_DESCRIPTION, AVAIL_UCS_MANUF_DESC, AVAIL_UCS_DFLT_DESC,
      AVAIL_UCS_MANUF_DFLT_DESC]"

definition published :: "nat \<Rightarrow> 32 word" where
  "published k = fold (\<lambda>d acc. acc OR d) (take k publish_order) 0"

text \<open>
  The invariant of the cache: without a thread nothing is started or published; with a
  thread that has completed \<open>k\<close> stages exactly the first \<open>k\<close> bits are published.
\<close>

definition cache_inv :: "persistent_data \<Rightarrow> bool" where
  "cache_inv s =
     (case m_thread s of
        None \<Rightarrow> \<not> m_started s \<and> m_available s = 0
      | Some t \<Rightarrow> m_started s \<and> stages_done t \<le> 8 \<and> m_available s = published (stages_done t))"

section \<open>Notions used in the statements\<close>

text \<open>The list is ordered by shortname, as \<open>populate_list\<close> leaves it.\<close>

definition shortname_sorted :: "ui_system_info list \<Rightarrow> bool" where
  "shortname_sorted xs \<longleftrightarrow> sorted_wrt (<) (map (\<lambda>a. name (driver a)) xs)"

text \<open>
  What the loop of \<open>populate_parents\<close> writes into one entry, read off a list \<open>xs\<close>.
\<close>

definition parent_fill :: "ui_system_info list \<Rightarrow> ui_system_info \<Rightarrow> ui_system_info" where
  "parent_fill xs info =
     (let p = game_driver.parent (driver info)
      in if has_parent p then
           let found = find_system p xs
           in if found \<noteq> length xs then
                info\<lparr> parent := description (xs ! found),
                      reading_parent := reading_description (xs ! found) \<rparr>
              else info\<lparr> parent := p \<rparr>
         else info)"

text \<open>The reading fields a line with a non-empty reading writes.\<close>
definition set_reading :: "externals \<Rightarrow> string \<Rightarrow> ui_system_info \<Rightarrow> ui_system_info" where
  "set_reading E reading info =
     info\<lparr> reading_description := wstring_from_utf8 E reading,
           ucs_reading_description := ustr_from_utf8 E (normalize_unicode E reading),
           ucs_manufacturer_reading_description :=
             ustr_from_utf8 E (normalize_unicode E (manufacturer (driver info) @ '' '' @ reading)) \<rparr>"






text \<open>
  The ranking rule in the spec's words: the fields are taken in order; once the best score
  is 0 every later field is skipped; a later field's score is used only if its field is
  considered and the score is lower than the best so far.  A field is a pair of "is
  considered" and its edit distance.
\<close>

definition spec_relax :: "real \<Rightarrow> bool \<times> real \<Rightarrow> real" where
  "spec_relax best f = (if best = 0 then best else if fst f \<and> snd f < best then snd f else best)"

definition spec_score :: "externals \<Rightarrow> 32 word \<Rightarrow> u32string \<Rightarrow> ui_system_info \<Rightarrow> real" where
  "spec_score E searched q sys =
     foldl spec_relax
       (if searched AND AVAIL_UCS_SHORTNAME \<noteq> 0 then edit_distance E q (ucs_shortname sys) else 1)
       [(ucs_reading_description sys \<noteq> [],
           edit_distance E q (ucs_reading_description sys)),
        (ucs_reading_description sys \<noteq> [],
           edit_distance E q (ucs_manufacturer_reading_description sys)),
        (searched AND AVAIL_UCS_DESCRIPTION \<noteq> 0,
           edit_distance E q (ucs_description sys)),
        (searched AND AVAIL_UCS_MANUF_DESC \<noteq> 0,
           edit_distance E q (ucs_manufacturer_description sys)),
        (searched AND AVAIL_UCS_DFLT_DESC \<noteq> 0 \<and> ucs_default_description sys \<noteq> [],
           edit_distance E q (ucs_default_description sys)),
        (searched AND AVAIL_UCS_DFLT_DESC \<noteq> 0 \<and> ucs_default_description sys \<noteq> []
           \<and> searched AND AVAIL_UCS_MANUF_DFLT_DESC \<noteq> 0,
           edit_distance E q (ucs_manufacturer_default_description sys))]"

text \<open>
  The order in which \<open>populate_search\<close> finds the entries of the search list: the
  order of the sorted list when the search list was empty, otherwise the order the previous
  call left.
\<close>

definition search_order :: "persistent_data \<Rightarrow> menu_select_game \<Rightarrow> nat list" where
  "search_order pd m =
     (if m_searchlist m = [] then [0 ..< length (m_sorted_list pd)]
      else map snd (m_searchlist m))"

text \<open>
  Two notions for the proofs about \<open>stable_sort\<close>.  \<open>chunked Q n ys xs\<close>: the lists
  \<open>ys\<close> and \<open>xs\<close>, cut in runs of \<open>n\<close> elements, are related by \<open>Q\<close> run by run.
  \<open>stably_sorted f ys xs\<close>: \<open>ys\<close> is \<open>xs\<close> sorted by the key \<open>f\<close>, elements of one
  key in the order they have in \<open>xs\<close>.
\<close>

function chunked :: "('a list \<Rightarrow> 'a list \<Rightarrow> bool) \<Rightarrow> nat \<Rightarrow> 'a list \<Rightarrow> 'a list \<Rightarrow> bool" where
  "chunked Q n ys xs =
     (if 0 < n \<and> n < length xs
      then Q (take n ys) (take n xs) \<and> chunked Q n (drop n ys) (drop n xs)
      else Q ys xs)"
  by pat_completeness auto
termination
  by (relation "measure (\<lambda>(Q, n, ys, xs). length xs)") auto

definition stably_sorted :: "('a \<Rightarrow> 'b::linorder) \<Rightarrow> 'a list \<Rightarrow> 'a list \<Rightarrow> bool" where
  "stably_sorted f ys xs \<longleftrightarrow>
     mset ys = mset xs \<and> sorted (map f ys)
     \<and> (\<forall>k. filter (\<lambda>x. k = f x) ys = filter (\<lambda>x. k = f x) xs)"

section \<open>A concrete environment for examples\<close>

text \<open>
  For the examples: the "C" locale on ASCII text.  Collation compares code units,
  the conversions map a character to its code, normalisation changes nothing (the
  examples use lower-case ASCII where it is applied), \<open>strtrimspace\<close> strips white
  space at both ends.
\<close>

fun lex_compare :: "nat list \<Rightarrow> nat list \<Rightarrow> int" where
  "lex_compare [] [] = 0"
| "lex_compare [] (y # ys) = - 1"
| "lex_compare (x # xs) [] = 1"
| "lex_compare (x # xs) (y # ys) =
     (if x < y then - 1 else if y < x then 1 else lex_compare xs ys)"

definition ascii :: "string \<Rightarrow> nat list" where
  "ascii str = map of_char str"

definition is_space :: "char \<Rightarrow> bool" where
  "is_space ch \<longleftrightarrow> ch = CHR '' '' \<or> ch = CHR 0x09 \<or> ch = CHR 0x0A \<or> ch = CHR 0x0B
     \<or> ch = CHR 0x0C \<or> ch = CHR 0x0D"

definition trim_spaces :: "string \<Rightarrow> string" where
  "trim_spaces str = rev (dropWhile is_space (rev (dropWhile is_space str)))"

text \<open>
  Modelled from the spec: \<open>util::edit_distance\<close> is defined outside the sources; the spec
  names the Levenshtein distance.  Used in examples only.
\<close>

fun levenshtein :: "nat list \<Rightarrow> nat list \<Rightarrow> nat" where
  "levenshtein [] ys = length ys"
| "levenshtein (x # xs) [] = Suc (length xs)"
| "levenshtein (x # xs) (y # ys) =
     (if x = y then levenshtein xs ys
      else Suc (min (levenshtein xs ys) (min (levenshtein xs (y # ys)) (levenshtein (x # xs) ys))))"

definition example_externals ::
  "game_driver list \<Rightarrow> nat \<Rightarrow> string list option \<Rightarrow> externals" where
  "example_externals ds e file =
     \<lparr> coll_compare = lex_compare,
       wstring_from_utf8 = ascii,
       ustr_from_utf8 = ascii,
       normalize_unicode = (\<lambda>str. str),
       strtrimspace = trim_spaces,
       edit_distance = (\<lambda>a b. real (levenshtein a b)),
       driver_list = ds,
       empty_index = e,
       open_file = (\<lambda>dp ti. file) \<rparr>"

text \<open>
  The catalog of the clone-ordering example, in shortname order as \<open>driver_list\<close> is:
  the "empty" driver, the clone B of A, the independent C, and A.
\<close>

definition empty_driver :: game_driver where
  "empty_driver =
     \<lparr> name = ''___empty'', parent = ''0'', manufacturer = ''MAME'', year = ''2007'',
       fullname = ''No Driver Loaded'', is_bios_root = False \<rparr>"

definition driver_A :: game_driver where
  "driver_A =
     \<lparr> name = ''zalpha'', parent = ''0'', manufacturer = ''Acme'', year = ''1980'',
       fullname = ''Alpha'', is_bios_root = False \<rparr>"

definition driver_B :: game_driver where
  "driver_B =
     \<lparr> name = ''aclone'', parent = ''zalpha'', manufacturer = ''Acme'', year = ''1981'',
       fullname = ''Alpha Two'', is_bios_root = False \<rparr>"

definition driver_C :: game_driver where
  "driver_C =
     \<lparr> name = ''beta'', parent = ''0'', manufacturer = ''Bolt'', year = ''1982'',
       fullname = ''Beta'', is_bios_root = False \<rparr>"

definition example_catalog :: "game_driver list" where
  "example_catalog = [empty_driver, driver_B, driver_C, driver_A]"

definition example_env :: externals where
  "example_env = example_externals example_catalog 0 None"






text \<open>
  An overlay for the examples with titles: a line of tab-separated fields, a catalog with a
  clone of a missing parent and a clone whose parent sorts behind every shortname, and a
  file with a reading, a second description for one system, an empty description with a
  reading, an unknown shortname and a line without a tab.
\<close>

fun tsv :: "string list \<Rightarrow> string" where
  "tsv [] = [CHR 0x0A]"
| "tsv [f] = f @ [CHR 0x0A]"
| "tsv (f # g # fs) = f @ TAB # tsv (g # fs)"

definition driver_M :: game_driver where
  "driver_M =
     \<lparr> name = ''mclone'', parent = ''gone'', manufacturer = ''Mint'', year = ''1983'',
       fullname = ''Orphan'', is_bios_root = False \<rparr>"

definition driver_Z :: game_driver where
  "driver_Z =
     \<lparr> name = ''zclone'', parent = ''zzzz'', manufacturer = ''Zest'', year = ''1984'',
       fullname = ''Last'', is_bios_root = False \<rparr>"

definition titles_catalog :: "game_driver list" where
  "titles_catalog = [empty_driver, driver_B, driver_C, driver_M, driver_A, driver_Z]"

definition titles_file :: "string list" where
  "titles_file =
     [tsv [''zalpha'', ''Alpha JP'', ''arufa''],
      tsv [''beta'', ''Beta JP''],
      tsv [''zalpha'', ''Other Alpha''],
      tsv [''aclone'', '' '', ''kuron''],
      tsv [''nosuch'', ''No Such''],
      ''no tab here'' @ [CHR 0x0A]]"

definition titles_env :: externals where
  "titles_env = example_externals titles_catalog 0 (Some titles_file)"

definition untitled_list :: "ui_system_info list" where
  "untitled_list = m_sorted_list (populate_list titles_env False new_persistent_data)"

definition titled_list :: "ui_system_info list" where
  "titled_list = fst (load_titles titles_env titles_file untitled_list)"

text \<open>The list after the first two lines of the overlay.\<close>

definition two_titles_list :: "ui_system_info list" where
  "two_titles_list = fst (load_title_lines titles_env (take 2 titles_file) (untitled_list, []))"

text \<open>A catalog with a system whose full name is empty, and an empty overlay.\<close>

definition unnamed_driver :: game_driver where
  "unnamed_driver =
     \<lparr> name = ''unnamed'', parent = ''0'', manufacturer = ''Acme'', year = ''1985'',
       fullname = [], is_bios_root = False \<rparr>"

definition unnamed_env :: externals where
  "unnamed_env = example_externals [empty_driver, unnamed_driver] 0 (Some [])"

text \<open>
  Searches on the example cache at the moment the normalized shortnames are published:
  for "ac" on a fresh menu, for "x" on the menu that search leaves, for "beta" on a fresh
  menu.
\<close>

definition shortnames_published :: persistent_data where
  "shortnames_published = run_stages example_env [] [] 4 new_persistent_data"

definition first_search :: menu_select_game where
  "first_search = \<lparr> m_search = ''ac'', m_searchlist = [], m_searched_fields = 0 \<rparr>"

definition second_search :: menu_select_game where
  "second_search =
     \<lparr> m_search = ''x'', m_searchlist = [(4, 1), (4, 2), (5, 0)], m_searched_fields = 4 \<rparr>"

definition exact_search :: menu_select_game where
  "exact_search = \<lparr> m_search = ''beta'', m_searchlist = [], m_searched_fields = 0 \<rparr>"

section \<open>Basic facts\<close>

lemmas AVAIL_defs =
  AVAIL_NONE_def AVAIL_SORTED_LIST_def AVAIL_BIOS_COUNT_def AVAIL_UCS_SHORTNAME_def
  AVAIL_UCS_DESCRIPTION_def AVAIL_UCS_MANUF_DESC_def AVAIL_UCS_DFLT_DESC_def
  AVAIL_UCS_MANUF_DFLT_DESC_def AVAIL_FILTER_DATA_def

declare lower_bound.simps [simp del]

lemma fold_preserves:
  assumes "\<And>x s. g (f x s) = g s"
  shows "g (fold f xs s) = g s"
  by (induction xs arbitrary: s) (simp_all add: assms)

subsection \<open>What a stage changes of the synchronisation state\<close>

lemma populate_list_step_frame:
  "m_available (populate_list_step E c x s) = m_available s"
  "m_thread (populate_list_step E c x s) = m_thread s"
  "m_started (populate_list_step E c x s) = m_started s"
  by (simp_all add: populate_list_step_def Let_def)

lemma populate_list_frame:
  "m_available (populate_list E c s) = m_available s"
  "m_thread (populate_list E c s) = m_thread s"
  "m_started (populate_list E c s) = m_started s"
  unfolding populate_list_def
  by (rule fold_preserves, simp add: populate_list_step_frame)+

lemmas stage_defs =
  stages_def stage_bios_count_def stage_sorted_list_def stage_filter_data_def
  stage_ucs_shortname_def stage_ucs_description_def stage_ucs_manuf_desc_def
  stage_ucs_dflt_desc_def stage_ucs_manuf_dflt_desc_def notify_available_def
  sort_systems_def erase_empty_def load_titles_and_parents_def

lemma stage_cases:
  assumes "(k::nat) < 8"
  obtains "k = 0" | "k = 1" | "k = 2" | "k = 3" | "k = 4" | "k = 5" | "k = 6" | "k = 7"
  using assms by linarith

lemma stage_available:
  assumes "k < 8"
  shows "m_available ((stages E dp ti ! k) s) = m_available s OR publish_order ! k"
  using assms
  by (cases k rule: stage_cases)
    (simp_all add: stage_defs publish_order_def populate_list_frame split: option.split)

lemma stage_thread:
  assumes "k < 8"
  shows "m_thread ((stages E dp ti ! k) s) = m_thread s"
  using assms
  by (cases k rule: stage_cases)
    (simp_all add: stage_defs populate_list_frame split: option.split)

lemma stage_started:
  assumes "k < 8"
  shows "m_started ((stages E dp ti ! k) s) = m_started s"
  using assms
  by (cases k rule: stage_cases)
    (simp_all add: stage_defs populate_list_frame split: option.split)

lemma length_stages: "length (stages E dp ti) = 8"
  by (simp add: stages_def)

lemma is_available_or:
  "is_available d s \<Longrightarrow> m_available s' = m_available s OR v \<Longrightarrow> is_available d s'"
  unfolding is_available_def
  apply (rule bit_eqI)
  apply (auto simp add: bit_simps bit_eq_iff)
  done

lemma builder_step_Some:
  assumes "m_thread s = Some t" "stages_done t < 8"
  shows "m_available (builder_step E s) = m_available s OR publish_order ! stages_done t"
    and "m_thread (builder_step E s) = Some (t\<lparr> stages_done := Suc (stages_done t) \<rparr>)"
    and "m_started (builder_step E s) = m_started s"
  using assms
  by (simp_all add: builder_step_def length_stages stage_available stage_thread stage_started)

lemma builder_step_idle:
  assumes "m_thread s = None \<or> (\<exists>t. m_thread s = Some t \<and> \<not> stages_done t < 8)"
  shows "builder_step E s = s"
  using assms by (auto simp add: builder_step_def length_stages)

lemma builder_step_available:
  "is_available d s \<Longrightarrow> is_available d (builder_step E s)"
proof (cases "m_thread s")
  case None
  then show "is_available d s \<Longrightarrow> is_available d (builder_step E s)"
    by (simp add: builder_step_idle)
next
  case (Some t)
  assume a: "is_available d s"
  show "is_available d (builder_step E s)"
  proof (cases "stages_done t < 8")
    case True
    from a builder_step_Some(1) [OF Some True] show ?thesis
      by (rule is_available_or)
  next
    case False
    with Some a show ?thesis by (simp add: builder_step_idle)
  qed
qed

lemma cache_data_available: "m_available (fst (cache_data dp ti s)) = m_available s"
  by (simp add: cache_data_def Let_def)

lemma step_available:
  "e \<noteq> Reset_cache \<Longrightarrow> is_available d s \<Longrightarrow> is_available d (fst (step E e s))"
proof (cases e)
  case (Cache_data dp ti)
  assume "is_available d s"
  with Cache_data show ?thesis
    by (simp add: is_available_def cache_data_available)
next
  case Reset_cache
  assume "e \<noteq> Reset_cache"
  with Reset_cache show ?thesis by simp
next
  case Builder_step
  assume "is_available d s"
  with Builder_step show ?thesis
    by (simp add: builder_step_available)
qed

subsection \<open>The invariant\<close>

lemma length_publish_order: "length publish_order = 8"
  by (simp add: publish_order_def)

lemma published_0: "published 0 = 0"
  by (simp add: published_def)

lemma published_Suc: "k < 8 \<Longrightarrow> published (Suc k) = published k OR publish_order ! k"
  unfolding published_def using take_Suc_conv_app_nth [of k publish_order]
  by (simp add: length_publish_order)

lemma published_bit_all:
  "list_all (\<lambda>k. list_all (\<lambda>j.
      (published k AND publish_order ! j = publish_order ! j) = (j < k)) [0..<8]) [0..<9]"
  by code_simp

lemma published_bit:
  assumes "k \<le> 8" "j < 8"
  shows "(published k AND publish_order ! j = publish_order ! j) \<longleftrightarrow> j < k"
proof -
  from assms have "k \<in> set [0..<9]" "j \<in> set [0..<8]" by simp_all
  with published_bit_all show ?thesis
    unfolding list_all_iff by blast
qed

lemma cache_inv_new: "cache_inv new_persistent_data"
  by (simp add: cache_inv_def new_persistent_data_def AVAIL_NONE_def)

lemma cache_inv_cache_data: "cache_inv s \<Longrightarrow> cache_inv (fst (cache_data dp ti s))"
  by (auto simp add: cache_inv_def cache_data_def Let_def published_0 split: option.splits)

lemma cache_inv_builder_step: "cache_inv s \<Longrightarrow> cache_inv (builder_step E s)"
proof (cases "m_thread s")
  case None
  then show "cache_inv s \<Longrightarrow> cache_inv (builder_step E s)" by (simp add: builder_step_idle)
next
  case (Some t)
  assume a: "cache_inv s"
  show "cache_inv (builder_step E s)"
  proof (cases "stages_done t < 8")
    case True
    with a Some builder_step_Some [OF Some True, of E] show ?thesis
      by (simp add: cache_inv_def published_Suc)
  next
    case False
    with Some a show ?thesis by (simp add: builder_step_idle)
  qed
qed

lemma reset_cache_new: "reset_cache E s = new_persistent_data"
  by (simp add: reset_cache_def new_persistent_data_def Let_def)

lemma cache_inv_step: "cache_inv s \<Longrightarrow> cache_inv (fst (step E e s))"
  by (cases e)
    (simp_all add: cache_inv_cache_data cache_inv_builder_step reset_cache_new cache_inv_new)

lemma cache_inv_run: "cache_inv s \<Longrightarrow> cache_inv (fst (run E es s))"
  by (induction es arbitrary: s) (simp_all add: Let_def cache_inv_step)

lemma cache_inv_order:
  assumes "cache_inv s" "i < j" "j < 8" "is_available (publish_order ! j) s"
  shows "is_available (publish_order ! i) s"
proof (cases "m_thread s")
  case None
  with assms(1) have "m_available s = published 0"
    by (simp add: cache_inv_def published_0)
  with assms(3,4) published_bit [of 0 j] show ?thesis
    by (simp add: is_available_def)
next
  case (Some t)
  with assms(1) have k: "stages_done t \<le> 8" and m: "m_available s = published (stages_done t)"
    by (simp_all add: cache_inv_def)
  from assms(3,4) m published_bit [OF k, of j] have "j < stages_done t"
    by (simp add: is_available_def)
  with assms(2) have "i < stages_done t" by simp
  moreover from assms(2,3) have "i < 8" by simp
  ultimately show ?thesis using m published_bit [OF k, of i]
    by (simp add: is_available_def)
qed

lemma cache_inv_noop:
  "cache_inv s \<Longrightarrow> m_thread s \<noteq> None \<Longrightarrow> cache_data dp ti s = (s, [])"
  by (auto simp add: cache_inv_def cache_data_def split: option.splits)

subsection \<open>Threads created by a run\<close>

lemma started_run:
  "Reset_cache \<notin> set es \<Longrightarrow> m_started s
    \<Longrightarrow> m_started (fst (run E es s)) \<and> snd (run E es s) = []"
proof (induction es arbitrary: s)
  case Nil
  then show ?case by simp
next
  case (Cons e es)
  then have "m_started (fst (step E e s)) \<and> snd (step E e s) = []"
    by (cases e)
      (auto simp add: cache_data_def builder_step_def length_stages stage_started
        split: option.splits)
  with Cons show ?case by (simp add: Let_def)
qed

lemma threads_run:
  "Reset_cache \<notin> set es \<Longrightarrow> length (snd (run E es s)) \<le> 1"
proof (induction es arbitrary: s)
  case Nil
  then show ?case by simp
next
  case (Cons e es)
  show ?case
  proof (cases "snd (step E e s) = []")
    case True
    with Cons show ?thesis by (simp add: Let_def)
  next
    case False
    then have "m_started (fst (step E e s)) \<and> length (snd (step E e s)) = 1"
      by (cases e) (auto simp add: cache_data_def Let_def split: if_splits)
    with Cons.prems started_run [of es "fst (step E e s)" E] show ?thesis
      by (simp add: Let_def)
  qed
qed

subsection \<open>The stages of do_cache_data\<close>

lemma run_stages_0: "run_stages E dp ti 0 s = s"
  by (simp add: run_stages_def)

lemma run_stages_Suc:
  "k < 8 \<Longrightarrow> run_stages E dp ti (Suc k) s = (stages E dp ti ! k) (run_stages E dp ti k s)"
  unfolding run_stages_def using take_Suc_conv_app_nth [of k "stages E dp ti"]
  by (simp add: length_stages)

lemma run_stages_available:
  "k \<le> 8 \<Longrightarrow> m_available s = 0 \<Longrightarrow> m_available (run_stages E dp ti k s) = published k"
proof (induction k)
  case 0
  then show ?case by (simp add: run_stages_0 published_0)
next
  case (Suc k)
  then show ?case by (simp add: run_stages_Suc stage_available published_Suc)
qed

subsection \<open>The thread of a fresh build runs do_cache_data\<close>

lemma populate_list_step_thread:
  "populate_list_step E c x (s\<lparr> m_thread := v \<rparr>) = (populate_list_step E c x s)\<lparr> m_thread := v \<rparr>"
  by (simp add: populate_list_step_def Let_def)

lemma populate_list_fold_thread:
  "fold (populate_list_step E c) is (s\<lparr> m_thread := v \<rparr>)
     = (fold (populate_list_step E c) is s)\<lparr> m_thread := v \<rparr>"
  by (induction "is" arbitrary: s) (simp_all add: populate_list_step_thread)

lemma populate_list_thread:
  "populate_list E c (s\<lparr> m_thread := v \<rparr>) = (populate_list E c s)\<lparr> m_thread := v \<rparr>"
  by (simp add: populate_list_def populate_list_fold_thread)

lemma stage_thread_update:
  assumes "k < 8"
  shows "(stages E dp ti ! k) (s\<lparr> m_thread := v \<rparr>) = ((stages E dp ti ! k) s)\<lparr> m_thread := v \<rparr>"
  using assms
  by (cases k rule: stage_cases)
    (simp_all add: stage_defs populate_list_thread split: option.split)

lemma run_stages_thread_update:
  "k \<le> 8 \<Longrightarrow>
   run_stages E dp ti k (s\<lparr> m_thread := v \<rparr>) = (run_stages E dp ti k s)\<lparr> m_thread := v \<rparr>"
proof (induction k)
  case 0
  then show ?case by (simp add: run_stages_0)
next
  case (Suc k)
  then show ?case by (simp add: run_stages_Suc stage_thread_update)
qed

lemma builder_step_thread:
  assumes "k < 8"
  shows "builder_step E (s\<lparr> m_thread := Some \<lparr> datpath = dp, titles = ti, stages_done = k \<rparr> \<rparr>)
    = ((stages E dp ti ! k) s)
        \<lparr> m_thread := Some \<lparr> datpath = dp, titles = ti, stages_done = Suc k \<rparr> \<rparr>"
  using assms by (simp add: builder_step_def length_stages stage_thread_update)

lemma builder_steps:
  "n \<le> 8 \<Longrightarrow>
    ((builder_step E) ^^ n) (s\<lparr> m_thread := Some \<lparr> datpath = dp, titles = ti, stages_done = 0 \<rparr> \<rparr>)
      = (run_stages E dp ti n s)\<lparr> m_thread := Some \<lparr> datpath = dp, titles = ti, stages_done = n \<rparr> \<rparr>"
proof (induction n)
  case 0
  then show ?case by (simp add: run_stages_0)
next
  case (Suc n)
  then have n: "n < 8" "n \<le> 8" by simp_all
  let ?s0 = "s\<lparr> m_thread := Some \<lparr> datpath = dp, titles = ti, stages_done = 0 \<rparr> \<rparr>"
  have "((builder_step E) ^^ Suc n) ?s0 = builder_step E (((builder_step E) ^^ n) ?s0)"
    by (simp only: funpow.simps comp_def)
  also have "\<dots> = builder_step E ((run_stages E dp ti n s)
      \<lparr> m_thread := Some \<lparr> datpath = dp, titles = ti, stages_done = n \<rparr> \<rparr>)"
    by (simp only: Suc.IH [OF n(2)])
  also have "\<dots> = ((stages E dp ti ! n) (run_stages E dp ti n s))
      \<lparr> m_thread := Some \<lparr> datpath = dp, titles = ti, stages_done = Suc n \<rparr> \<rparr>"
    by (rule builder_step_thread [OF n(1)])
  finally show ?case by (simp only: run_stages_Suc [OF n(1)])
qed

lemma join_fresh_build:
  assumes "\<not> m_started s"
  shows "join E (fst (cache_data dp ti s))
    = (do_cache_data E dp ti (s\<lparr> m_started := True \<rparr>))
        \<lparr> m_thread := Some \<lparr> datpath = dp, titles = ti, stages_done = 8 \<rparr> \<rparr>"
proof -
  from builder_steps [where n=8 and E=E and s="s\<lparr> m_started := True \<rparr>" and dp=dp and ti=ti] assms(1)
  show ?thesis
    by (simp add: join_def cache_data_def Let_def do_cache_data_def)
qed

lemma populate_list_step_started:
  "populate_list_step E c x (s\<lparr> m_started := v \<rparr>) = (populate_list_step E c x s)\<lparr> m_started := v \<rparr>"
  by (simp add: populate_list_step_def Let_def)

lemma populate_list_fold_started:
  "fold (populate_list_step E c) is (s\<lparr> m_started := v \<rparr>)
     = (fold (populate_list_step E c) is s)\<lparr> m_started := v \<rparr>"
  by (induction "is" arbitrary: s) (simp_all add: populate_list_step_started)

lemma populate_list_started:
  "populate_list E c (s\<lparr> m_started := v \<rparr>) = (populate_list E c s)\<lparr> m_started := v \<rparr>"
  by (simp add: populate_list_def populate_list_fold_started)

lemma stage_started_update:
  assumes "k < 8"
  shows "(stages E dp ti ! k) (s\<lparr> m_started := v \<rparr>) = ((stages E dp ti ! k) s)\<lparr> m_started := v \<rparr>"
  using assms
  by (cases k rule: stage_cases)
    (simp_all add: stage_defs populate_list_started split: option.split)

lemma run_stages_started_update:
  "k \<le> 8 \<Longrightarrow>
   run_stages E dp ti k (s\<lparr> m_started := v \<rparr>) = (run_stages E dp ti k s)\<lparr> m_started := v \<rparr>"
proof (induction k)
  case 0
  then show ?case by (simp add: run_stages_0)
next
  case (Suc k)
  then show ?case by (simp add: run_stages_Suc stage_started_update)
qed

lemma join_fresh_sorted_list:
  assumes "\<not> m_started s"
  shows "m_sorted_list (join E (fst (cache_data dp ti s))) = m_sorted_list (do_cache_data E dp ti s)"
    and "m_available (join E (fst (cache_data dp ti s))) = m_available (do_cache_data E dp ti s)"
    and "m_bios_count (join E (fst (cache_data dp ti s))) = m_bios_count (do_cache_data E dp ti s)"
    and "m_filter_data (join E (fst (cache_data dp ti s))) = m_filter_data (do_cache_data E dp ti s)"
  by (simp_all add: join_fresh_build [OF assms] do_cache_data_def run_stages_started_update)

subsection \<open>stable_sort: unfolding\<close>

declare chunk_insertion_sort.simps [simp del] merge_sort_loop.simps [simp del]
  merge_sort_steps.simps [simp del] chunked.simps [simp del]

subsection \<open>stable_sort: lengths\<close>

lemma length_unguarded_linear_insert:
  "length (unguarded_linear_insert lt front val) = Suc (length front)"
proof -
  have "length (takeWhile (lt val) (rev front)) + length (dropWhile (lt val) (rev front))
      = length (rev front)"
    by (metis length_append takeWhile_dropWhile_id)
  then show ?thesis by (simp add: unguarded_linear_insert_def)
qed

lemma length_insertion_step: "length (insertion_step lt front val) = Suc (length front)"
  by (simp add: insertion_step_def length_unguarded_linear_insert)

lemma length_insertion_fold:
  "length (foldl (insertion_step lt) front rest) = length front + length rest"
  by (induction rest arbitrary: front) (simp_all add: length_insertion_step)

lemma length_insertion_sort: "length (insertion_sort lt xs) = length xs"
  by (simp add: insertion_sort_def length_insertion_fold split: list.split)

lemma length_move_merge: "length (move_merge lt xs ys) = length xs + length ys"
  by (induction lt xs ys rule: move_merge.induct) simp_all

lemma length_merge_from_back: "length (merge_from_back lt xs ys) = length xs + length ys"
  by (induction lt xs ys rule: merge_from_back.induct) simp_all

lemma move_merge_Nil2: "move_merge lt xs [] = xs"
  by (cases xs) simp_all

lemma merge_from_back_Nil2: "merge_from_back lt xs [] = xs"
  by (cases xs) simp_all

lemma insertion_sort_Nil: "insertion_sort lt [] = []"
  by (simp add: insertion_sort_def)

lemma length_merge_sort_loop: "length (merge_sort_loop lt s xs) = length xs"
proof (induction "length xs" arbitrary: xs rule: less_induct)
  case less
  show ?case
  proof (cases "0 < s \<and> 2 * s \<le> length xs")
    case True
    then have "length (drop (2 * s) xs) < length xs" by auto
    then have "length (merge_sort_loop lt s (drop (2 * s) xs)) = length (drop (2 * s) xs)"
      by (rule less)
    with True show ?thesis
      by (subst merge_sort_loop.simps) (auto simp add: length_move_merge min_def)
  next
    case False
    then show ?thesis
      by (subst merge_sort_loop.simps) (auto simp add: length_move_merge Let_def)
  qed
qed

subsection \<open>stable_sort: from the insertion sort and the merges to the whole\<close>

lemma chunked_last: "\<not> (0 < n \<and> n < length xs) \<Longrightarrow> chunked Q n ys xs = Q ys xs"
  by (subst chunked.simps) auto

lemma chunked_next:
  "0 < n \<Longrightarrow> n < length xs \<Longrightarrow>
   chunked Q n ys xs = (Q (take n ys) (take n xs) \<and> chunked Q n (drop n ys) (drop n xs))"
  by (subst chunked.simps) simp

lemma chunk_insertion_sort_short:
  "length xs < S_chunk_size \<Longrightarrow> chunk_insertion_sort lt xs = insertion_sort lt xs"
  by (subst chunk_insertion_sort.simps) simp



lemma chunk_insertion_sort_next:
  "S_chunk_size \<le> length xs \<Longrightarrow> chunk_insertion_sort lt xs
     = insertion_sort lt (take S_chunk_size xs) @ chunk_insertion_sort lt (drop S_chunk_size xs)"
  by (subst chunk_insertion_sort.simps) simp

lemma chunk_insertion_sort_chunked:
  assumes i: "\<And>xs. Q (insertion_sort lt xs) xs"
  shows "chunked Q S_chunk_size (chunk_insertion_sort lt xs) xs"
proof (induction "length xs" arbitrary: xs rule: less_induct)
  case less
  have pos: "0 < S_chunk_size" by (simp add: S_chunk_size_def)
  consider (more) "S_chunk_size < length xs" | (exact) "length xs = S_chunk_size"
    | (short) "length xs < S_chunk_size"
    by linarith
  then show ?case
  proof cases
    case short
    then have n: "\<not> (0 < S_chunk_size \<and> S_chunk_size < length xs)" by simp
    show ?thesis
      unfolding chunk_insertion_sort_short [OF short] chunked_last [OF n] by (rule i)
  next
    case exact
    then have n: "\<not> (0 < S_chunk_size \<and> S_chunk_size < length xs)" by simp
    from exact have "chunk_insertion_sort lt xs = insertion_sort lt xs"
      by (simp add: chunk_insertion_sort_next chunk_insertion_sort_short pos insertion_sort_Nil)
    then show ?thesis
      unfolding chunked_last [OF n] by (simp only: i)
  next
    case more
    then have ge: "S_chunk_size \<le> length xs" by simp
    have "chunked Q S_chunk_size (chunk_insertion_sort lt (drop S_chunk_size xs))
        (drop S_chunk_size xs)"
      using more pos by (intro less) simp
    moreover have "Q (insertion_sort lt (take S_chunk_size xs)) (take S_chunk_size xs)"
      by (rule i)
    ultimately show ?thesis
      using ge
      unfolding chunk_insertion_sort_next [OF ge] chunked_next [OF pos more]
      by (simp add: length_insertion_sort)
  qed
qed

lemma merge_sort_loop_Nil: "merge_sort_loop lt s [] = []"
  by (subst merge_sort_loop.simps) auto

lemma merge_sort_loop_next:
  "0 < s \<Longrightarrow> 2 * s \<le> length xs \<Longrightarrow> merge_sort_loop lt s xs
     = move_merge lt (take s xs) (take s (drop s xs)) @ merge_sort_loop lt s (drop (2 * s) xs)"
  by (subst merge_sort_loop.simps) simp

lemma merge_sort_loop_last:
  "length xs < 2 * s \<Longrightarrow> merge_sort_loop lt s xs
     = move_merge lt (take s xs) (drop s xs)"
  by (subst merge_sort_loop.simps) (auto simp add: Let_def min_def move_merge_Nil2)

lemma merge_sort_loop_chunked:
  assumes m: "\<And>a b xs ys. Q a xs \<Longrightarrow> Q b ys \<Longrightarrow> Q (move_merge lt a b) (xs @ ys)"
  shows "length ys = length xs \<Longrightarrow> 0 < s \<Longrightarrow> chunked Q s ys xs
    \<Longrightarrow> chunked Q (2 * s) (merge_sort_loop lt s ys) xs"
proof (induction "length xs" arbitrary: xs ys rule: less_induct)
  case less
  note len = less.prems(1) and pos = less.prems(2) and ch = less.prems(3)
  from pos have pos2: "0 < 2 * s" by simp
  consider (two) "2 * s < length xs" | (exact) "2 * s = length xs"
    | (one) "s < length xs" "length xs < 2 * s" | (none) "length xs \<le> s"
    by linarith
  then show ?case
  proof cases
    case two
    then have s1: "s < length xs" and s2: "s < length (drop s xs)" by simp_all
    from ch have q1: "Q (take s ys) (take s xs)"
      and c1: "chunked Q s (drop s ys) (drop s xs)"
      by (simp_all add: chunked_next [OF pos s1])
    from c1 have q2: "Q (take s (drop s ys)) (take s (drop s xs))"
      and c2: "chunked Q s (drop (2 * s) ys) (drop (2 * s) xs)"
      by (simp_all add: chunked_next [OF pos s2] mult_2)
    have r: "chunked Q (2 * s) (merge_sort_loop lt s (drop (2 * s) ys)) (drop (2 * s) xs)"
      using two pos len by (intro less.hyps c2) simp_all
    have t: "take s xs @ take s (drop s xs) = take (2 * s) xs"
      by (simp add: take_add mult_2)
    from two len have ge: "2 * s \<le> length ys" by simp
    have l: "length (move_merge lt (take s ys) (take s (drop s ys))) = 2 * s"
      using two len by (simp add: length_move_merge)
    from m [OF q1 q2] r show ?thesis
      unfolding merge_sort_loop_next [OF pos ge] chunked_next [OF pos2 two] t
      using l by simp
  next
    case exact
    then have s1: "s < length xs" using pos by simp
    from ch have q1: "Q (take s ys) (take s xs)"
      and c1: "chunked Q s (drop s ys) (drop s xs)"
      by (simp_all add: chunked_next [OF pos s1])
    from exact have n: "\<not> (0 < s \<and> s < length (drop s xs))" by auto
    from c1 have q2: "Q (drop s ys) (drop s xs)"
      by (simp only: chunked_last [OF n])
    from exact have n2: "\<not> (0 < 2 * s \<and> 2 * s < length xs)" by simp
    from exact len have ge: "2 * s \<le> length ys" by simp
    from exact len have e: "take s (drop s ys) = drop s ys" "drop (2 * s) ys = []" by simp_all
    from m [OF q1 q2] show ?thesis
      unfolding merge_sort_loop_next [OF pos ge] chunked_last [OF n2] e merge_sort_loop_Nil
      by simp
  next
    case one
    from ch have q1: "Q (take s ys) (take s xs)"
      and c1: "chunked Q s (drop s ys) (drop s xs)"
      by (simp_all add: chunked_next [OF pos one(1)])
    from one have n: "\<not> (0 < s \<and> s < length (drop s xs))" by simp
    from c1 have q2: "Q (drop s ys) (drop s xs)"
      by (simp only: chunked_last [OF n])
    from one have n2: "\<not> (0 < 2 * s \<and> 2 * s < length xs)" by simp
    from one len have lt2: "length ys < 2 * s" by simp
    from m [OF q1 q2] show ?thesis
      unfolding merge_sort_loop_last [OF lt2] chunked_last [OF n2]
      by simp
  next
    case none
    then have n: "\<not> (0 < s \<and> s < length xs)" by simp
    from none have n2: "\<not> (0 < 2 * s \<and> 2 * s < length xs)" by simp
    from none len pos have lt2: "length ys < 2 * s" by simp
    from ch have "Q ys xs" by (simp only: chunked_last [OF n])
    with none len show ?thesis
      unfolding merge_sort_loop_last [OF lt2] chunked_last [OF n2]
      by (simp add: move_merge_Nil2)
  qed
qed

lemma merge_sort_steps_chunked:
  assumes m: "\<And>a b xs ys. Q a xs \<Longrightarrow> Q b ys \<Longrightarrow> Q (move_merge lt a b) (xs @ ys)"
  shows "length ys = length xs \<Longrightarrow> 0 < s \<Longrightarrow> chunked Q s ys xs
    \<Longrightarrow> Q (merge_sort_steps lt (length xs) s ys) xs"
proof (induction "length xs - s" arbitrary: s ys rule: less_induct)
  case less
  show ?case
  proof (cases "s < length xs")
    case False
    with less.prems show ?thesis
      by (subst merge_sort_steps.simps) (simp add: chunked_last)
  next
    case True
    let ?a = "merge_sort_loop lt s ys"
    let ?b = "merge_sort_loop lt (2 * s) ?a"
    have a: "chunked Q (2 * s) ?a xs"
      by (rule merge_sort_loop_chunked [where Q = Q, OF m less.prems])
    have b: "chunked Q (2 * (2 * s)) ?b xs"
      using less.prems by (intro merge_sort_loop_chunked [where Q = Q, OF m] a) (simp_all add: length_merge_sort_loop)
    have "Q (merge_sort_steps lt (length xs) (4 * s) ?b) xs"
      using less.prems True b by (intro less.hyps) (simp_all add: length_merge_sort_loop)
    with True less.prems show ?thesis
      by (subst merge_sort_steps.simps) simp
  qed
qed

lemma length_chunk_insertion_sort: "length (chunk_insertion_sort lt xs) = length xs"
proof (induction "length xs" arbitrary: xs rule: less_induct)
  case less
  show ?case
  proof (cases "S_chunk_size \<le> length xs")
    case True
    then have "length (drop S_chunk_size xs) < length xs" by (simp add: S_chunk_size_def)
    then have "length (chunk_insertion_sort lt (drop S_chunk_size xs))
        = length (drop S_chunk_size xs)"
      by (rule less)
    with True show ?thesis
      by (simp add: chunk_insertion_sort_next length_insertion_sort)
  next
    case False
    then show ?thesis
      by (simp add: chunk_insertion_sort_short length_insertion_sort)
  qed
qed

lemma merge_sort_with_buffer_blocks:
  assumes i: "\<And>xs. Q (insertion_sort lt xs) xs"
    and m: "\<And>a b xs ys. Q a xs \<Longrightarrow> Q b ys \<Longrightarrow> Q (move_merge lt a b) (xs @ ys)"
  shows "Q (merge_sort_with_buffer lt xs) xs"
  unfolding merge_sort_with_buffer_def
proof (rule merge_sort_steps_chunked [where Q = Q, OF m])
  show "length (chunk_insertion_sort lt xs) = length xs"
    by (rule length_chunk_insertion_sort)
  show "0 < S_chunk_size" by (simp add: S_chunk_size_def)
  show "chunked Q S_chunk_size (chunk_insertion_sort lt xs) xs"
    by (rule chunk_insertion_sort_chunked [where Q = Q, OF i])
qed

lemma stable_sort_blocks:
  assumes i: "\<And>xs. Q (insertion_sort lt xs) xs"
    and m: "\<And>a b xs ys. Q a xs \<Longrightarrow> Q b ys \<Longrightarrow> Q (move_merge lt a b) (xs @ ys)"
    and b: "\<And>a b xs ys. Q a xs \<Longrightarrow> Q b ys \<Longrightarrow> Q (move_merge_adaptive_backward lt a b) (xs @ ys)"
  shows "Q (stable_sort lt xs) xs"
proof (cases "xs = []")
  case True
  with i [of "[]"] show ?thesis
    by (simp add: stable_sort_def insertion_sort_Nil)
next
  case False
  let ?h = "(length xs + 1) div 2"
  have l: "Q (merge_sort_with_buffer lt (take ?h xs)) (take ?h xs)"
    and r: "Q (merge_sort_with_buffer lt (drop ?h xs)) (drop ?h xs)"
    by (rule merge_sort_with_buffer_blocks [where Q = Q, OF i m]; assumption)+
  from m [OF l r] b [OF l r] False show ?thesis
    by (simp add: stable_sort_def merge_adaptive_def move_merge_adaptive_def Let_def)
qed

subsection \<open>stable_sort: the result is a permutation\<close>




lemma mset_move_merge: "mset (move_merge lt xs ys) = mset xs + mset ys"
  by (induction lt xs ys rule: move_merge.induct) simp_all

lemma mset_merge_from_back: "mset (merge_from_back lt xs ys) = mset xs + mset ys"
  by (induction lt xs ys rule: merge_from_back.induct) simp_all




subsection \<open>stable_sort: no adjacent pair out of order\<close>






lemma hd_move_merge:
  "hd (move_merge lt (x # xs) (y # ys)) = (if lt y x then y else x)"
  by simp







subsection \<open>stable_sort: a key comparator\<close>

lemma stably_sorted_insert:
  fixes f :: "'a \<Rightarrow> 'b::linorder"
  assumes "stably_sorted f (A @ B) xs"
    and "\<forall>x\<in>set A. f x \<le> f val" and "\<forall>x\<in>set B. f val < f x"
  shows "stably_sorted f (A @ val # B) (xs @ [val])"
proof -
  from assms(3) have e: "filter (\<lambda>x. f val = f x) B = []"
    by (auto simp add: filter_empty_conv)
  from assms(1) have k: "filter (\<lambda>x. k = f x) A @ filter (\<lambda>x. k = f x) B
      = filter (\<lambda>x. k = f x) xs" for k
    by (simp add: stably_sorted_def)
  have "filter (\<lambda>x. k = f x) (A @ val # B) = filter (\<lambda>x. k = f x) (xs @ [val])" for k
    using k [of k] e by (cases "k = f val") simp_all
  moreover from assms have "sorted (map f (A @ val # B))"
    by (auto simp add: stably_sorted_def sorted_append)
  moreover from assms(1) have "mset (A @ val # B) = mset (xs @ [val])"
    by (simp add: stably_sorted_def)
  ultimately show ?thesis
    unfolding stably_sorted_def by blast
qed

lemma sorted_le_last:
  fixes f :: "'a \<Rightarrow> 'b::linorder"
  shows "sorted (map f xs) \<Longrightarrow> x \<in> set xs \<Longrightarrow> f x \<le> f (last xs)"
  by (induction xs) auto

lemma stably_sorted_step:
  fixes f :: "'a \<Rightarrow> 'b::linorder"
  assumes s: "stably_sorted f front xs"
  shows "stably_sorted f (insertion_step (\<lambda>a b. f a < f b) front val) (xs @ [val])"
proof (cases "f val < f (hd front)")
  case True
  note lt = this
  show ?thesis
  proof (cases front)
    case Nil
    with s have "xs = []" by (simp add: stably_sorted_def)
    with Nil show ?thesis
      by (simp add: insertion_step_def unguarded_linear_insert_def stably_sorted_def)
  next
    case (Cons a as)
    with s lt have "\<forall>x\<in>set front. f val < f x"
      by (auto simp add: stably_sorted_def)
    with stably_sorted_insert [of f "[]" front xs val] s lt show ?thesis
      by (simp add: insertion_step_def)
  qed
next
  case False
  let ?T = "takeWhile (\<lambda>x. f val < f x) (rev front)"
  let ?D = "dropWhile (\<lambda>x. f val < f x) (rev front)"
  have fr: "front = rev ?D @ rev ?T"
    by (metis rev_append rev_rev_ident takeWhile_dropWhile_id)
  have t: "\<forall>x\<in>set (rev ?T). f val < f x"
    using set_takeWhileD [of _ "\<lambda>x. f val < f x" "rev front"] by auto
  have d: "\<forall>x\<in>set (rev ?D). f x \<le> f val"
  proof (cases "?D = []")
    case True
    show ?thesis unfolding True by simp
  next
    case ne: False
    then have h: "f (hd ?D) \<le> f val"
      using hd_dropWhile [of "\<lambda>x. f val < f x" "rev front"] by (simp add: not_less)
    from s fr have "sorted (map f (rev ?D @ rev ?T))"
      by (simp add: stably_sorted_def)
    then have "sorted (map f (rev ?D))"
      by (simp only: map_append sorted_append)
    then have "\<forall>x\<in>set (rev ?D). f x \<le> f (last (rev ?D))"
      by (blast intro: sorted_le_last)
    with h ne show ?thesis by (auto simp add: last_rev)
  qed
  from s fr have "stably_sorted f (rev ?D @ rev ?T) xs" by simp
  from stably_sorted_insert [OF this d t] False show ?thesis
    by (simp add: insertion_step_def unguarded_linear_insert_def)
qed


lemma stably_sorted_fold:
  fixes f :: "'a \<Rightarrow> 'b::linorder"
  shows "stably_sorted f front xs
    \<Longrightarrow> stably_sorted f (foldl (insertion_step (\<lambda>a b. f a < f b)) front rest) (xs @ rest)"
proof (induction rest arbitrary: front xs)
  case Nil
  then show ?case by simp
next
  case (Cons v rest)
  from Cons.IH [OF stably_sorted_step [OF Cons.prems, of v]] show ?case by simp
qed

lemma stably_sorted_insertion_sort:
  fixes f :: "'a \<Rightarrow> 'b::linorder"
  shows "stably_sorted f (insertion_sort (\<lambda>a b. f a < f b) xs) xs"
proof (cases xs)
  case Nil
  then show ?thesis by (simp add: insertion_sort_def stably_sorted_def)
next
  case (Cons x rest)
  have "stably_sorted f [x] [x]" by (simp add: stably_sorted_def)
  from stably_sorted_fold [OF this, of rest] Cons show ?thesis
    by (simp add: insertion_sort_def)
qed

lemma set_move_merge: "set (move_merge lt xs ys) = set xs \<union> set ys"
  by (induction lt xs ys rule: move_merge.induct) auto

lemma set_merge_from_back: "set (merge_from_back lt xs ys) = set xs \<union> set ys"
  by (induction lt xs ys rule: merge_from_back.induct) auto

lemma sorted_move_merge:
  fixes f :: "'a \<Rightarrow> 'b::linorder"
  shows "sorted (map f xs) \<Longrightarrow> sorted (map f ys)
    \<Longrightarrow> sorted (map f (move_merge (\<lambda>a b. f a < f b) xs ys))"
proof (induction "length xs + length ys" arbitrary: xs ys rule: less_induct)
  case less
  show ?case
  proof (cases xs)
    case Nil
    with less.prems show ?thesis by simp
  next
    case x: (Cons x xs')
    show ?thesis
    proof (cases ys)
      case Nil
      with less.prems show ?thesis by (simp add: move_merge_Nil2)
    next
      case y: (Cons y ys')
      show ?thesis
      proof (cases "f y < f x")
        case True
        have "sorted (map f (move_merge (\<lambda>a b. f a < f b) xs ys'))"
          using x y less.prems by (intro less.hyps) simp_all
        with True less.prems x y show ?thesis
          by (auto simp add: set_move_merge)
      next
        case False
        have "sorted (map f (move_merge (\<lambda>a b. f a < f b) xs' ys))"
          using x y less.prems by (intro less.hyps) simp_all
        with False less.prems x y show ?thesis
          by (auto simp add: set_move_merge)
      qed
    qed
  qed
qed

lemma filter_move_merge:
  fixes f :: "'a \<Rightarrow> 'b::linorder"
  shows "sorted (map f xs) \<Longrightarrow> sorted (map f ys)
    \<Longrightarrow> filter (\<lambda>x. k = f x) (move_merge (\<lambda>a b. f a < f b) xs ys)
      = filter (\<lambda>x. k = f x) xs @ filter (\<lambda>x. k = f x) ys"
proof (induction "length xs + length ys" arbitrary: xs ys rule: less_induct)
  case less
  show ?case
  proof (cases xs)
    case Nil
    with less.prems show ?thesis by simp
  next
    case x: (Cons x xs')
    show ?thesis
    proof (cases ys)
      case Nil
      with less.prems show ?thesis by (simp add: move_merge_Nil2)
    next
      case y: (Cons y ys')
      show ?thesis
      proof (cases "f y < f x")
        case True
        have r: "filter (\<lambda>x. k = f x) (move_merge (\<lambda>a b. f a < f b) xs ys')
            = filter (\<lambda>x. k = f x) xs @ filter (\<lambda>x. k = f x) ys'"
          using x y less.prems by (intro less.hyps) simp_all
        from True less.prems(1) x have "filter (\<lambda>x. f y = f x) xs = []"
          by (auto simp add: filter_empty_conv)
        with True r x y show ?thesis by auto
      next
        case False
        have r: "filter (\<lambda>x. k = f x) (move_merge (\<lambda>a b. f a < f b) xs' ys)
            = filter (\<lambda>x. k = f x) xs' @ filter (\<lambda>x. k = f x) ys"
          using x y less.prems by (intro less.hyps) simp_all
        with False x y show ?thesis by auto
      qed
    qed
  qed
qed

lemma stably_sorted_move_merge:
  fixes f :: "'a \<Rightarrow> 'b::linorder"
  assumes "stably_sorted f a xs" "stably_sorted f b ys"
  shows "stably_sorted f (move_merge (\<lambda>a b. f a < f b) a b) (xs @ ys)"
  using assms
  by (simp add: stably_sorted_def mset_move_merge sorted_move_merge filter_move_merge)

lemma sorted_merge_from_back:
  fixes f :: "'a \<Rightarrow> 'b::linorder"
  shows "sorted (rev (map f xs)) \<Longrightarrow> sorted (rev (map f ys))
    \<Longrightarrow> sorted (rev (map f (merge_from_back (\<lambda>a b. f a < f b) xs ys)))"
proof (induction "length xs + length ys" arbitrary: xs ys rule: less_induct)
  case less
  show ?case
  proof (cases xs)
    case Nil
    with less.prems show ?thesis by simp
  next
    case x: (Cons x xs')
    show ?thesis
    proof (cases ys)
      case Nil
      with less.prems show ?thesis by (simp add: merge_from_back_Nil2)
    next
      case y: (Cons y ys')
      show ?thesis
      proof (cases "f y < f x")
        case True
        have "sorted (rev (map f (merge_from_back (\<lambda>a b. f a < f b) xs' ys)))"
          using x y less.prems by (intro less.hyps) (simp_all add: sorted_append)
        with True less.prems x y show ?thesis
          by (auto simp add: set_merge_from_back sorted_append)
      next
        case False
        have "sorted (rev (map f (merge_from_back (\<lambda>a b. f a < f b) xs ys')))"
          using x y less.prems by (intro less.hyps) (simp_all add: sorted_append)
        with False less.prems x y show ?thesis
          by (auto simp add: set_merge_from_back sorted_append)
      qed
    qed
  qed
qed

lemma filter_merge_from_back:
  fixes f :: "'a \<Rightarrow> 'b::linorder"
  shows "sorted (rev (map f xs)) \<Longrightarrow> sorted (rev (map f ys))
    \<Longrightarrow> filter (\<lambda>x. k = f x) (merge_from_back (\<lambda>a b. f a < f b) xs ys)
      = filter (\<lambda>x. k = f x) ys @ filter (\<lambda>x. k = f x) xs"
proof (induction "length xs + length ys" arbitrary: xs ys rule: less_induct)
  case less
  show ?case
  proof (cases xs)
    case Nil
    with less.prems show ?thesis by simp
  next
    case x: (Cons x xs')
    show ?thesis
    proof (cases ys)
      case Nil
      with less.prems show ?thesis by (simp add: merge_from_back_Nil2)
    next
      case y: (Cons y ys')
      show ?thesis
      proof (cases "f y < f x")
        case True
        have r: "filter (\<lambda>x. k = f x) (merge_from_back (\<lambda>a b. f a < f b) xs' ys)
            = filter (\<lambda>x. k = f x) ys @ filter (\<lambda>x. k = f x) xs'"
          using x y less.prems by (intro less.hyps) (simp_all add: sorted_append)
        from True less.prems(2) y have "filter (\<lambda>z. f x = f z) ys = []"
          by (auto simp add: filter_empty_conv sorted_append)
        with True r x y show ?thesis by auto
      next
        case False
        have r: "filter (\<lambda>x. k = f x) (merge_from_back (\<lambda>a b. f a < f b) xs ys')
            = filter (\<lambda>x. k = f x) ys' @ filter (\<lambda>x. k = f x) xs"
          using x y less.prems by (intro less.hyps) (simp_all add: sorted_append)
        with False x y show ?thesis by auto
      qed
    qed
  qed
qed

lemma stably_sorted_backward:
  fixes f :: "'a \<Rightarrow> 'b::linorder"
  assumes "stably_sorted f a xs" "stably_sorted f b ys"
  shows "stably_sorted f (move_merge_adaptive_backward (\<lambda>a b. f a < f b) a b) (xs @ ys)"
proof -
  let ?m = "merge_from_back (\<lambda>a b. f a < f b) (rev a) (rev b)"
  from assms have s: "sorted (rev (map f (rev a)))" "sorted (rev (map f (rev b)))"
    by (simp_all add: stably_sorted_def rev_map)
  have "filter (\<lambda>x. k = f x) (rev ?m) = filter (\<lambda>x. k = f x) (xs @ ys)" for k
    using assms filter_merge_from_back [OF s, of k]
    by (simp add: stably_sorted_def rev_filter [symmetric])
  moreover from sorted_merge_from_back [OF s] have "sorted (map f (rev ?m))"
    by (simp add: rev_map)
  moreover from assms have "mset (rev ?m) = mset (xs @ ys)"
    by (simp add: stably_sorted_def mset_merge_from_back)
  ultimately show ?thesis
    unfolding stably_sorted_def move_merge_adaptive_backward_def by blast
qed

lemma stable_sort_key:
  "stable_sort (\<lambda>lhs rhs. f lhs < f rhs) xs = sort_key f xs"
  for f :: "'a \<Rightarrow> 'b::linorder"
proof -
  have "stably_sorted f (stable_sort (\<lambda>lhs rhs. f lhs < f rhs) xs) xs"
    by (rule stable_sort_blocks [where Q = "stably_sorted f"])
      (simp_all add: stably_sorted_insertion_sort stably_sorted_move_merge
        stably_sorted_backward)
  then show ?thesis
    by (intro properties_for_sort_key [symmetric]) (simp_all add: stably_sorted_def)
qed

subsection \<open>lower_bound and find_system\<close>

lemma lower_bound_0: "lower_bound below xs first 0 = first"
  by (subst lower_bound.simps) simp

lemma lower_bound_right:
  "len \<noteq> 0 \<Longrightarrow> below (xs ! (first + len div 2)) \<Longrightarrow>
   lower_bound below xs first len
     = lower_bound below xs (first + len div 2 + 1) (len - len div 2 - 1)"
  by (subst lower_bound.simps) (simp add: Let_def)

lemma lower_bound_left:
  "len \<noteq> 0 \<Longrightarrow> \<not> below (xs ! (first + len div 2)) \<Longrightarrow>
   lower_bound below xs first len = lower_bound below xs first (len div 2)"
  by (subst lower_bound.simps) (simp add: Let_def)

lemma lower_bound_bounds:
  "first \<le> lower_bound below xs first len \<and> lower_bound below xs first len \<le> first + len"
proof (induction len arbitrary: first rule: less_induct)
  case (less len)
  show ?case
  proof (cases "len = 0")
    case True
    then show ?thesis by (simp add: lower_bound_0)
  next
    case False
    then have h: "len div 2 < len" by simp
    show ?thesis
    proof (cases "below (xs ! (first + len div 2))")
      case True
      from False have "len - len div 2 - 1 < len" by simp
      from less.IH [OF this, of "first + len div 2 + 1"] h
      show ?thesis
        unfolding lower_bound_right [where below=below and xs=xs and first=first and len=len, OF False True] by linarith
    next
      case b: False
      from less.IH [OF h, of first] h
      show ?thesis
        unfolding lower_bound_left [where below=below and xs=xs and first=first and len=len, OF False b] by linarith
    qed
  qed
qed

text \<open>On a list where the elements below the bound form a prefix.\<close>

lemma lower_bound_partition:
  assumes part: "\<And>i j. i \<le> j \<Longrightarrow> j < length xs \<Longrightarrow> below (xs ! j) \<Longrightarrow> below (xs ! i)"
  shows "first + len \<le> length xs \<Longrightarrow> (\<forall>i<first. below (xs ! i))
    \<Longrightarrow> (\<forall>i. first + len \<le> i \<and> i < length xs \<longrightarrow> \<not> below (xs ! i))
    \<Longrightarrow> (\<forall>i < lower_bound below xs first len. below (xs ! i))
      \<and> (\<forall>i. lower_bound below xs first len \<le> i \<and> i < length xs \<longrightarrow> \<not> below (xs ! i))"
proof (induction len arbitrary: first rule: less_induct)
  case (less len)
  show ?case
  proof (cases "len = 0")
    case True
    with less.prems show ?thesis by (simp add: lower_bound_0)
  next
    case False
    then have h: "len div 2 < len" by simp
    let ?m = "first + len div 2"
    from h less.prems(1) have m: "?m < length xs" by linarith
    show ?thesis
    proof (cases "below (xs ! ?m)")
      case True
      from False have d: "len - len div 2 - 1 < len" by simp
      from h less.prems(1) have p1: "?m + 1 + (len - len div 2 - 1) \<le> length xs" by linarith
      have p2: "\<forall>i<?m + 1. below (xs ! i)"
      proof (intro allI impI)
        fix i assume "i < ?m + 1"
        then have "i \<le> ?m" by simp
        from part [OF this m True] show "below (xs ! i)" .
      qed
      from h have e: "?m + 1 + (len - len div 2 - 1) = first + len" by linarith
      from less.prems(3) have p3: "\<forall>i. ?m + 1 + (len - len div 2 - 1) \<le> i \<and> i < length xs
          \<longrightarrow> \<not> below (xs ! i)"
        unfolding e .
      from less.IH [OF d p1 p2 p3] show ?thesis
        unfolding lower_bound_right [where below=below and xs=xs and first=first and len=len, OF False True] .
    next
      case b: False
      from m have p1: "first + len div 2 \<le> length xs" by simp
      have p3: "\<forall>i. first + len div 2 \<le> i \<and> i < length xs \<longrightarrow> \<not> below (xs ! i)"
      proof (intro allI impI notI)
        fix i assume a: "first + len div 2 \<le> i \<and> i < length xs" and c: "below (xs ! i)"
        from a have "?m \<le> i" "i < length xs" by simp_all
        from part [OF this c] b show False by simp
      qed
      from less.IH [OF h p1 less.prems(2) p3] show ?thesis
        unfolding lower_bound_left [where below=below and xs=xs and first=first and len=len, OF False b] .
    qed
  qed
qed


lemma lower_bound_cong:
  assumes "length ys = length xs"
    and "\<And>i. i < length xs \<Longrightarrow> below' (ys ! i) = below (xs ! i)"
  shows "first + len \<le> length xs
    \<Longrightarrow> lower_bound below' ys first len = lower_bound below xs first len"
proof (induction len arbitrary: first rule: less_induct)
  case (less len)
  show ?case
  proof (cases "len = 0")
    case True
    then show ?thesis by (simp add: lower_bound_0)
  next
    case False
    then have h: "len div 2 < len" by simp
    with less.prems have m: "first + len div 2 < length xs" by linarith
    from False have d: "len - len div 2 - 1 < len" by simp
    from h less.prems have p1: "first + len div 2 + 1 + (len - len div 2 - 1) \<le> length xs"
      by linarith
    from m have p2: "first + len div 2 \<le> length xs" by simp
    show ?thesis
    proof (cases "below (xs ! (first + len div 2))")
      case True
      with assms(2) [OF m] have t: "below' (ys ! (first + len div 2))" by simp
      show ?thesis
        unfolding lower_bound_right [where below=below and xs=xs and first=first and len=len, OF False True]
          lower_bound_right [where below=below' and xs=ys and first=first and len=len, OF False t]
        by (rule less.IH [OF d p1])
    next
      case b: False
      with assms(2) [OF m] have t: "\<not> below' (ys ! (first + len div 2))" by simp
      show ?thesis
        unfolding lower_bound_left [where below=below and xs=xs and first=first and len=len, OF False b]
          lower_bound_left [where below=below' and xs=ys and first=first and len=len, OF False t]
        by (rule less.IH [OF h p2])
    qed
  qed
qed

lemma shortname_sorted_nth:
  assumes "shortname_sorted xs" "i < j" "j < length xs"
  shows "name (driver (xs ! i)) < name (driver (xs ! j))"
proof -
  from assms(1) have "sorted_wrt (\<lambda>a b. name (driver a) < name (driver b)) xs"
    by (simp add: shortname_sorted_def sorted_wrt_map)
  from sorted_wrt_nth_less [OF this assms(2,3)] show ?thesis .
qed

lemma find_system_le: "find_system b xs \<le> length xs"
  unfolding find_system_def using lower_bound_bounds [of 0 "name_below b" xs "length xs"] by simp

lemma find_system_cong:
  assumes "map driver ys = map driver xs"
  shows "find_system b ys = find_system b xs"
proof -
  from assms have l: "length ys = length xs" by (rule map_eq_imp_length_eq)
  have "\<And>i. i < length xs \<Longrightarrow> name_below b (ys ! i) = name_below b (xs ! i)"
  proof -
    fix i assume i: "i < length xs"
    from assms have "map driver ys ! i = map driver xs ! i" by simp
    with i l have "driver (ys ! i) = driver (xs ! i)" by simp
    then show "name_below b (ys ! i) = name_below b (xs ! i)"
      by (simp add: name_below_def)
  qed
  from lower_bound_cong [where below'="name_below b" and below="name_below b" and ys=ys
      and xs=xs and first=0 and len="length xs", OF l this] l
  show ?thesis by (simp add: find_system_def)
qed

lemma find_system_spec:
  assumes "shortname_sorted xs"
  shows "(\<forall>i < find_system b xs. name (driver (xs ! i)) < b)
     \<and> (\<forall>i. find_system b xs \<le> i \<and> i < length xs \<longrightarrow> \<not> name (driver (xs ! i)) < b)"
proof -
  have part: "\<And>i j. i \<le> j \<Longrightarrow> j < length xs \<Longrightarrow> name_below b (xs ! j) \<Longrightarrow> name_below b (xs ! i)"
  proof -
    fix i j assume ij: "i \<le> j" and j: "j < length xs" and bj: "name_below b (xs ! j)"
    show "name_below b (xs ! i)"
    proof (cases "i = j")
      case True
      with bj show ?thesis by simp
    next
      case False
      with ij have "i < j" by simp
      from shortname_sorted_nth [OF assms this j]
      have "name (driver (xs ! i)) < name (driver (xs ! j))" .
      moreover from bj have "name (driver (xs ! j)) < b" by (simp only: name_below_def)
      ultimately have "name (driver (xs ! i)) < b" by (rule less_trans)
      then show ?thesis by (simp only: name_below_def)
    qed
  qed
  have p1: "0 + length xs \<le> length xs" by simp
  have p2: "\<forall>i<0. name_below b (xs ! i)" by simp
  have p3: "\<forall>i. 0 + length xs \<le> i \<and> i < length xs \<longrightarrow> \<not> name_below b (xs ! i)"
    by auto
  from lower_bound_partition [where xs=xs and below="name_below b" and first=0
      and len="length xs", OF part p1 p2 p3]
  show ?thesis unfolding find_system_def name_below_def .
qed

lemma find_system_first:
  assumes "shortname_sorted xs" "j < length xs" "\<not> name (driver (xs ! j)) < b"
    and "\<forall>l<j. name (driver (xs ! l)) < b"
  shows "find_system b xs = j"
proof -
  note sp = find_system_spec [OF assms(1), of b]
  have "\<not> j < find_system b xs" using sp assms(3) by blast
  moreover have "\<not> find_system b xs < j"
  proof
    assume a: "find_system b xs < j"
    with assms(4) have "name (driver (xs ! find_system b xs)) < b" by simp
    moreover from a assms(2) have "find_system b xs < length xs" by simp
    ultimately show False using sp by blast
  qed
  ultimately show ?thesis by simp
qed

lemma find_system_exact:
  assumes "shortname_sorted xs" "j < length xs" "name (driver (xs ! j)) = b"
  shows "find_system b xs = j"
proof (rule find_system_first [OF assms(1,2)])
  from assms(3) show "\<not> name (driver (xs ! j)) < b" by simp
  show "\<forall>l<j. name (driver (xs ! l)) < b"
  proof (intro allI impI)
    fix l assume "l < j"
    from shortname_sorted_nth [OF assms(1) this assms(2)] assms(3)
    show "name (driver (xs ! l)) < b" by simp
  qed
qed

lemma find_system_none:
  assumes "\<forall>j<length xs. name (driver (xs ! j)) < b"
  shows "find_system b xs = length xs"
proof -
  have part: "\<And>i j. i \<le> j \<Longrightarrow> j < length xs \<Longrightarrow> name_below b (xs ! j) \<Longrightarrow> name_below b (xs ! i)"
  proof -
    fix i j :: nat assume "i \<le> j" "j < length xs"
    then have "i < length xs" by simp
    with assms show "name_below b (xs ! i)" by (simp only: name_below_def)
  qed
  have p1: "0 + length xs \<le> length xs" by simp
  have p2: "\<forall>i<0. name_below b (xs ! i)" by simp
  have p3: "\<forall>i. 0 + length xs \<le> i \<and> i < length xs \<longrightarrow> \<not> name_below b (xs ! i)"
    by auto
  from lower_bound_partition [where xs=xs and below="name_below b" and first=0
      and len="length xs", OF part p1 p2 p3]
  have "\<forall>i. find_system b xs \<le> i \<and> i < length xs \<longrightarrow> \<not> name (driver (xs ! i)) < b"
    unfolding find_system_def name_below_def by (rule conjunct2)
  with assms have "\<not> find_system b xs < length xs" by blast
  with find_system_le [of b xs] show ?thesis by simp
qed


subsection \<open>populate_parents\<close>

lemma populate_parents_step_eq:
  "populate_parents_step i xs = xs[i := parent_fill xs (xs ! i)]"
  by (simp add: populate_parents_step_def parent_fill_def Let_def)

lemma parent_fill_keys:
  "driver (parent_fill xs info) = driver info"
  "description (parent_fill xs info) = description info"
  "reading_description (parent_fill xs info) = reading_description info"
  by (simp_all add: parent_fill_def Let_def)

lemma map_update_same:
  assumes "f y = f (xs ! i)"
  shows "map f (xs[i := y]) = map f xs"
proof (cases "i < length xs")
  case True
  with assms show ?thesis by (simp add: map_update list_update_same_conv)
next
  case False
  then have "xs[i := y] = xs" by (simp add: list_update_beyond)
  then show ?thesis by simp
qed

lemma populate_parents_step_keys:
  "map driver (populate_parents_step i xs) = map driver xs"
  "map description (populate_parents_step i xs) = map description xs"
  "map reading_description (populate_parents_step i xs) = map reading_description xs"
  unfolding populate_parents_step_eq
  by (rule map_update_same, simp add: parent_fill_keys)+

lemma populate_parents_fold_keys:
  "map driver (fold populate_parents_step is xs) = map driver xs
   \<and> map description (fold populate_parents_step is xs) = map description xs
   \<and> map reading_description (fold populate_parents_step is xs) = map reading_description xs"
  by (induction "is" arbitrary: xs) (simp_all add: populate_parents_step_keys)

lemma populate_parents_fold_other:
  "i \<notin> set is \<Longrightarrow> fold populate_parents_step is xs ! i = xs ! i"
  by (induction "is" arbitrary: xs) (auto simp add: populate_parents_step_eq)

lemma parent_fill_cong:
  assumes "map driver ys = map driver xs"
    and "map description ys = map description xs"
    and "map reading_description ys = map reading_description xs"
  shows "parent_fill ys info = parent_fill xs info"
proof -
  from assms(1) have l: "length ys = length xs" by (rule map_eq_imp_length_eq)
  have f: "find_system b ys = find_system b xs" for b
    by (rule find_system_cong [OF assms(1)])
  have "description (ys ! k) = description (xs ! k)
      \<and> reading_description (ys ! k) = reading_description (xs ! k)" if "k < length xs" for k
  proof -
    from assms(2) have "map description ys ! k = map description xs ! k" by simp
    moreover from assms(3) have "map reading_description ys ! k = map reading_description xs ! k"
      by simp
    ultimately show ?thesis using that l by simp
  qed
  with find_system_le [of "game_driver.parent (driver info)" xs] l f show ?thesis
    by (auto simp add: parent_fill_def Let_def le_neq_implies_less)
qed

lemma populate_parents_nth:
  assumes "i < length xs"
  shows "populate_parents xs ! i = parent_fill xs (xs ! i)"
proof -
  let ?ys = "fold populate_parents_step [0..<i] xs"
  from assms have "[0..<length xs] = [0..<i] @ i # [Suc i..<length xs]"
    by (metis le0 upt_conv_Cons upt_add_eq_append le_add_diff_inverse less_imp_le)
  then have "populate_parents xs
      = fold populate_parents_step [Suc i..<length xs] (populate_parents_step i ?ys)"
    by (simp add: populate_parents_def)
  then have "populate_parents xs ! i = populate_parents_step i ?ys ! i"
    by (simp add: populate_parents_fold_other)
  moreover have k: "map driver ?ys = map driver xs \<and> map description ?ys = map description xs
      \<and> map reading_description ?ys = map reading_description xs"
    by (rule populate_parents_fold_keys)
  moreover from k have "length ?ys = length xs" by (metis length_map)
  moreover have "?ys ! i = xs ! i" by (simp add: populate_parents_fold_other)
  ultimately show ?thesis using assms parent_fill_cong [of ?ys xs]
    by (simp add: populate_parents_step_eq)
qed

subsection \<open>load_titles\<close>

lemma load_title_line_no_tab:
  "TAB \<notin> set (line_of readbuf) \<Longrightarrow> load_title_line E readbuf st = st"
  by (simp add: load_title_line_def Let_def)

lemma load_title_line_no_match:
  assumes "\<forall>a\<in>set (fst st). name (driver a) \<noteq> upto_tab (line_of readbuf)"
  shows "load_title_line E readbuf st = st"
proof -
  let ?found = "find_system (upto_tab (line_of readbuf)) (fst st)"
  have "?found = length (fst st) \<or> upto_tab (line_of readbuf) \<noteq> name (driver (fst st ! ?found))"
  proof (cases "?found < length (fst st)")
    case True
    then have "fst st ! ?found \<in> set (fst st)" by (rule nth_mem)
    with assms show ?thesis by force
  next
    case False
    with find_system_le [of "upto_tab (line_of readbuf)" "fst st"] show ?thesis by simp
  qed
  then show ?thesis by (simp add: load_title_line_def Let_def)
qed

text \<open>What a line that finds its system does.\<close>
lemma load_title_line_found:
  assumes "TAB \<in> set (line_of readbuf)"
    and "find_system (upto_tab (line_of readbuf)) xs = j" "j < length xs"
    and "name (driver (xs ! j)) = upto_tab (line_of readbuf)"
  shows "load_title_line E readbuf (xs, warns) =
     (let shortname = upto_tab (line_of readbuf);
          desc = strtrimspace E (upto_tab (after_tab (line_of readbuf)));
          reading = strtrimspace E (upto_tab (after_tab (after_tab (line_of readbuf))));
          has_reading = (TAB \<in> set (after_tab (line_of readbuf)));
          info1 = (if desc \<noteq> [] \<and> description (xs ! j) = [] then (xs ! j)\<lparr> description := desc \<rparr>
                   else xs ! j);
          info2 = (if has_reading \<and> reading \<noteq> [] then set_reading E reading info1 else info1)
      in (xs[j := info2],
          warns
          @ (if desc = [] then [Empty_description shortname]
             else if description (xs ! j) \<noteq> [] then
               [Multiple_descriptions shortname (description (xs ! j)) desc]
             else [])
          @ (if has_reading \<and> reading = [] then [Empty_reading shortname] else [])))"
  using assms
  by (simp add: load_title_line_def Let_def set_reading_def)


lemma load_title_lines_Cons:
  "load_title_lines E (readbuf # rest) st = load_title_lines E rest (load_title_line E readbuf st)"
  by (simp add: load_title_lines_def)

lemma load_title_line_driver:
  "map driver (fst (load_title_line E readbuf st)) = map driver (fst st)"
proof (cases "TAB \<in> set (line_of readbuf)
    \<and> find_system (upto_tab (line_of readbuf)) (fst st) < length (fst st)
    \<and> name (driver (fst st ! find_system (upto_tab (line_of readbuf)) (fst st)))
        = upto_tab (line_of readbuf)")
  case True
  then have "load_title_line E readbuf (fst st, snd st) =
     (let shortname = upto_tab (line_of readbuf);
          desc = strtrimspace E (upto_tab (after_tab (line_of readbuf)));
          reading = strtrimspace E (upto_tab (after_tab (after_tab (line_of readbuf))));
          has_reading = (TAB \<in> set (after_tab (line_of readbuf)));
          info1 = (if desc \<noteq> [] \<and> description (fst st ! find_system (upto_tab (line_of readbuf)) (fst st)) = [] then (fst st ! find_system (upto_tab (line_of readbuf)) (fst st))\<lparr> description := desc \<rparr>
                   else fst st ! find_system (upto_tab (line_of readbuf)) (fst st));
          info2 = (if has_reading \<and> reading \<noteq> [] then set_reading E reading info1 else info1)
      in ((fst st)[find_system (upto_tab (line_of readbuf)) (fst st) := info2],
          snd st
          @ (if desc = [] then [Empty_description shortname]
             else if description (fst st ! find_system (upto_tab (line_of readbuf)) (fst st)) \<noteq> [] then
               [Multiple_descriptions shortname (description (fst st ! find_system (upto_tab (line_of readbuf)) (fst st))) desc]
             else [])
          @ (if has_reading \<and> reading = [] then [Empty_reading shortname] else [])))"
    by (intro load_title_line_found) simp_all
  then show ?thesis
    by (simp add: Let_def set_reading_def map_update_same)
next
  case False
  with find_system_le [of "upto_tab (line_of readbuf)" "fst st"]
  have "load_title_line E readbuf st = st"
    by (auto simp add: load_title_line_def Let_def)
  then show ?thesis by simp
qed

lemma load_title_lines_driver:
  "map driver (fst (load_title_lines E file st)) = map driver (fst st)"
  unfolding load_title_lines_def
  by (induction "file" arbitrary: st) (simp_all add: load_title_line_driver)

lemma fill_description_driver: "driver (fill_description a) = driver a"
  by (simp add: fill_description_def)

lemma load_titles_driver: "map driver (fst (load_titles E file xs)) = map driver xs"
  using load_title_lines_driver [of E "file" "(xs, [])"]
  by (simp add: load_titles_def Let_def fill_description_driver comp_def)

subsection \<open>The sort\<close>




































subsection \<open>The search ranker\<close>

lemma spec_relax_block:
  "spec_relax best (en, d) = (if best \<noteq> 0 \<and> en then std_min d best else best)"
  by (auto simp add: spec_relax_def std_min_def)

lemma nested_reading:
  "(if first1 \<noteq> 0 \<and> r then
      if std_min d1 first1 \<noteq> 0 then std_min d2 (std_min d1 first1) else std_min d1 first1
    else first1)
   = spec_relax (spec_relax first1 (r, d1)) (r, d2)"
  by (simp add: spec_relax_block)

lemma single_block:
  "(if first \<noteq> 0 \<and> c then std_min d first else first) = spec_relax first (c, d)"
  by (simp add: spec_relax_block)

lemma nested_default:
  "(if first4 \<noteq> 0 \<and> c5 \<and> e5 then spec_relax (std_min d5 first4) (c6, d6) else first4)
   = spec_relax (spec_relax first4 (c5 \<and> e5, d5)) (c5 \<and> e5 \<and> c6, d6)"
  by (auto simp add: spec_relax_block)

lemma search_score_spec: "search_score E searched q sys = spec_score E searched q sys"
  unfolding search_score_def spec_score_def Let_def
  by (simp only: nested_reading single_block nested_default foldl.simps)


lemma spec_relax_zero: "foldl spec_relax 0 fs = 0"
  by (induction fs) (simp_all add: spec_relax_def)

lemma note_available_keeps:
  "f AND AVAIL_UCS_SHORTNAME \<noteq> 0 \<Longrightarrow> note_available pd d f AND AVAIL_UCS_SHORTNAME \<noteq> 0"
  unfolding note_available_def AVAIL_UCS_SHORTNAME_def
  by (auto simp add: bit_eq_iff bit_simps)

lemma or_and_same: "(f OR d) AND d = d" for f d :: "32 word"
  by (auto simp add: bit_eq_iff bit_simps)

lemma note_available_sets:
  assumes "is_available AVAIL_UCS_SHORTNAME pd"
  shows "note_available pd AVAIL_UCS_SHORTNAME f AND AVAIL_UCS_SHORTNAME \<noteq> 0"
proof -
  have "AVAIL_UCS_SHORTNAME \<noteq> 0" by (simp add: AVAIL_UCS_SHORTNAME_def)
  with assms show ?thesis by (simp add: note_available_def or_and_same)
qed

lemma searched_fields_shortname:
  "is_available AVAIL_UCS_SHORTNAME pd \<Longrightarrow> searched_fields pd f AND AVAIL_UCS_SHORTNAME \<noteq> 0"
  unfolding searched_fields_def
  by (intro note_available_keeps note_available_sets)

lemma search_score_exact:
  assumes "searched AND AVAIL_UCS_SHORTNAME \<noteq> 0" "edit_distance E q (ucs_shortname sys) = 0"
  shows "search_score E searched q sys = 0"
  unfolding search_score_spec spec_score_def using assms
  by (simp add: spec_relax_zero del: foldl.simps)

lemma ensure_searchlist_order:
  "ensure_searchlist pd m = Some sl \<Longrightarrow> map snd sl = search_order pd m"
  by (auto simp add: ensure_searchlist_def search_order_def sorted_list_def comp_def
      split: if_splits option.splits)

lemma ensure_searchlist_returns:
  "is_available AVAIL_SORTED_LIST pd \<or> m_searchlist m \<noteq> [] \<Longrightarrow> ensure_searchlist pd m \<noteq> None"
  by (auto simp add: ensure_searchlist_def sorted_list_def)

lemma score_searchlist_order:
  "score_searchlist E pd f q sl
     = map (\<lambda>i. (search_score E f q (m_sorted_list pd ! i), i)) (map snd sl)"
  by (simp add: score_searchlist_def comp_def)

lemma populate_search_Some:
  assumes "populate_search E pd m = Some m'"
  shows "m_searched_fields m' = searched_fields pd (m_searched_fields m)
    \<and> m_searchlist m' =
        sort_key fst
          (map (\<lambda>i. (search_score E (m_searched_fields m') (ucs E (m_search m))
                       (m_sorted_list pd ! i), i))
            (search_order pd m))"
proof -
  from assms obtain sl where sl: "ensure_searchlist pd m = Some sl"
    by (auto simp add: populate_search_def split: option.splits)
  with assms have m': "m' = m\<lparr> m_searchlist :=
        stable_sort (\<lambda>lhs rhs. fst lhs < fst rhs)
          (score_searchlist E pd (searched_fields pd (m_searched_fields m)) (ucs E (m_search m)) sl),
      m_searched_fields := searched_fields pd (m_searched_fields m) \<rparr>"
    by (simp add: populate_search_def Let_def)
  then have f: "m_searched_fields m' = searched_fields pd (m_searched_fields m)" by simp
  from m' have "m_searchlist m' = sort_key fst
      (score_searchlist E pd (searched_fields pd (m_searched_fields m)) (ucs E (m_search m)) sl)"
    by (simp add: stable_sort_key)
  with f ensure_searchlist_order [OF sl] show ?thesis
    by (simp add: score_searchlist_order)
qed


lemma ranked_scores:
  "map fst (sort_key fst (map (\<lambda>i. (sc i, i)) order))
     = map sc (map snd (sort_key fst (map (\<lambda>i. (sc i, i)) order)))"
  for sc :: "nat \<Rightarrow> real"
proof -
  have "\<forall>e \<in> set (sort_key fst (map (\<lambda>i. (sc i, i)) order)). fst e = sc (snd e)"
    by auto
  then show ?thesis by (simp add: comp_def)
qed

lemma ranked_stable:
  "map snd (filter (\<lambda>e. fst e = k) (sort_key fst (map (\<lambda>i. (sc i, i)) order)))
     = filter (\<lambda>i. sc i = k) order"
  for sc :: "nat \<Rightarrow> real"
  by (simp add: sort_key_stable filter_map comp_def)

section \<open>The cache: idempotent start, monotone stages, order of publication, reset\<close>

text \<open>
  Claim C3.  \<open>cache_data\<close> (the spec's \<open>begin_build\<close>) is idempotent.  The mutex makes
  every call one atomic step, so concurrent calls are calls in some order, interleaved
  with the steps of the background thread.  In every sequence of calls and thread steps
  on a fresh cache without a reset, at most one thread is created; and in the state such a
  sequence reaches, a call made while a thread exists (the build in progress or complete)
  creates no thread and returns the state as it was.
\<close>

theorem cache_data_idempotent:
  assumes "Reset_cache \<notin> set es"
  shows "length (snd (run E es new_persistent_data)) \<le> 1
    \<and> (m_thread (fst (run E es new_persistent_data)) \<noteq> None \<longrightarrow>
          cache_data dp ti (fst (run E es new_persistent_data))
            = (fst (run E es new_persistent_data), []))"
  using assms threads_run cache_inv_noop [OF cache_inv_run [OF cache_inv_new]]
  by blast

theorem cache_data_idempotent_witness:
  "Reset_cache \<notin> set [Cache_data [] [], Builder_step, Cache_data ''x'' ''y'']
   \<and> m_thread (fst (run example_env [Cache_data [] [], Builder_step, Cache_data ''x'' ''y'']
        new_persistent_data)) \<noteq> None
   \<and> length (snd (run example_env [Cache_data [] [], Builder_step, Cache_data ''x'' ''y'']
        new_persistent_data)) \<le> 1
   \<and> cache_data ''u'' ''v''
        (fst (run example_env [Cache_data [] [], Builder_step, Cache_data ''x'' ''y'']
          new_persistent_data))
      = (fst (run example_env [Cache_data [] [], Builder_step, Cache_data ''x'' ''y'']
          new_persistent_data), [])"
proof -
  have h1: "Reset_cache \<notin> set [Cache_data [] [], Builder_step, Cache_data ''x'' ''y'']"
    by simp
  have h2: "m_thread (fst (run example_env [Cache_data [] [], Builder_step, Cache_data ''x'' ''y'']
        new_persistent_data)) \<noteq> None"
    by code_simp
  from cache_data_idempotent [OF h1, of example_env "''u''" "''v''"] h1 h2
  show ?thesis by blast
qed

text \<open>
  Claim C4.  Stage monotonicity: once \<open>is_available desired\<close> is true it stays true
  over every sequence of \<open>cache_data\<close> calls and thread steps, from any state.  Only
  \<open>reset_cache\<close> is excluded.
\<close>

theorem stage_monotonicity:
  "Reset_cache \<notin> set es \<Longrightarrow> is_available desired s
    \<Longrightarrow> is_available desired (fst (run E es s))"
proof (induction es arbitrary: s)
  case Nil
  then show ?case by simp
next
  case (Cons e es)
  from Cons.prems have "e \<noteq> Reset_cache" by auto
  with Cons.prems have "is_available desired (fst (step E e s))"
    by (simp add: step_available)
  with Cons show ?case by (simp add: Let_def)
qed

theorem stage_monotonicity_witness:
  "Reset_cache \<notin> set [Builder_step, Cache_data ''x'' ''y'', Builder_step]
   \<and> is_available AVAIL_BIOS_COUNT
        (fst (run example_env [Cache_data [] [], Builder_step] new_persistent_data))
   \<and> is_available AVAIL_BIOS_COUNT
        (fst (run example_env [Builder_step, Cache_data ''x'' ''y'', Builder_step]
          (fst (run example_env [Cache_data [] [], Builder_step] new_persistent_data))))"
proof -
  have h1: "Reset_cache \<notin> set [Builder_step, Cache_data ''x'' ''y'', Builder_step]"
    by simp
  have h2: "is_available AVAIL_BIOS_COUNT
        (fst (run example_env [Cache_data [] [], Builder_step] new_persistent_data))"
    by code_simp
  from stage_monotonicity [OF h1 h2, of example_env] h1 h2 show ?thesis by blast
qed

text \<open>
  Claim C8.  The bits are published in the order BIOS_COUNT, SORTED_LIST, FILTER_DATA,
  UCS_SHORTNAME, UCS_DESCRIPTION, UCS_MANUF_DESC, UCS_DFLT_DESC, UCS_MANUF_DFLT_DESC:
  after \<open>k\<close> stages of \<open>do_cache_data\<close> on a fresh cache the mask holds exactly the
  first \<open>k\<close> bits of that order, and in every state the cache reaches (whatever the
  calls, resets and thread steps) a later bit is set only if every earlier bit is.
\<close>

theorem publication_order:
  "(\<forall>k\<le>8. m_available (run_stages E dp ti k new_persistent_data) = published k)
   \<and> (\<forall>i j. i < j \<and> j < 8
          \<and> is_available (publish_order ! j) (fst (run E es new_persistent_data))
        \<longrightarrow> is_available (publish_order ! i) (fst (run E es new_persistent_data)))"
proof (intro conjI allI impI)
  fix k :: nat
  assume "k \<le> 8"
  then show "m_available (run_stages E dp ti k new_persistent_data) = published k"
    by (rule run_stages_available) (simp add: new_persistent_data_def AVAIL_NONE_def)
next
  fix i j
  assume a: "i < j \<and> j < 8
    \<and> is_available (publish_order ! j) (fst (run E es new_persistent_data))"
  have "cache_inv (fst (run E es new_persistent_data))"
    by (rule cache_inv_run [OF cache_inv_new])
  with a show "is_available (publish_order ! i) (fst (run E es new_persistent_data))"
    using cache_inv_order by blast
qed

theorem publication_order_witness:
  "is_available (publish_order ! 2)
     (fst (run example_env [Cache_data [] [], Builder_step, Builder_step, Builder_step]
       new_persistent_data))
   \<and> is_available (publish_order ! 0)
     (fst (run example_env [Cache_data [] [], Builder_step, Builder_step, Builder_step]
       new_persistent_data))
   \<and> m_available (run_stages example_env [] [] 3 new_persistent_data) = published 3
   \<and> published 3 = 131
   \<and> publish_order ! 2 = AVAIL_FILTER_DATA \<and> publish_order ! 0 = AVAIL_BIOS_COUNT"
proof -
  have h: "is_available (publish_order ! 2)
     (fst (run example_env [Cache_data [] [], Builder_step, Builder_step, Builder_step]
       new_persistent_data))"
    by code_simp
  have v: "published 3 = 131
    \<and> publish_order ! 2 = AVAIL_FILTER_DATA \<and> publish_order ! 0 = AVAIL_BIOS_COUNT"
    by code_simp
  note po = publication_order [of example_env "[]" "[]"
      "[Cache_data [] [], Builder_step, Builder_step, Builder_step]"]
  have k: "(3::nat) \<le> 8" by simp
  have ij: "(0::nat) < 2 \<and> (2::nat) < 8" by simp
  from po k have a: "m_available (run_stages example_env [] [] 3 new_persistent_data) = published 3"
    by blast
  from po ij h have b: "is_available (publish_order ! 0)
     (fst (run example_env [Cache_data [] [], Builder_step, Builder_step, Builder_step]
       new_persistent_data))"
    by blast
  from a b h v show ?thesis by blast
qed

text \<open>
  Claim C9.  After \<open>reset_cache\<close> no stage is available, the sorted list is empty, the
  filter data is a fresh object, the BIOS count is zero, and no thread is recorded or
  started: the state is the constructor's.  So the build that the next \<open>cache_data\<close>
  starts, run to completion, leaves the sorted list that the first build on a fresh cache
  leaves for the same catalog, options and files, which is the list of
  \<open>do_cache_data\<close> on a fresh cache.
\<close>

theorem reset_then_rebuild:
  "\<not> is_available AVAIL_SORTED_LIST (reset_cache E s)
   \<and> \<not> is_available AVAIL_BIOS_COUNT (reset_cache E s)
   \<and> \<not> is_available AVAIL_UCS_SHORTNAME (reset_cache E s)
   \<and> \<not> is_available AVAIL_UCS_DESCRIPTION (reset_cache E s)
   \<and> \<not> is_available AVAIL_UCS_MANUF_DESC (reset_cache E s)
   \<and> \<not> is_available AVAIL_UCS_DFLT_DESC (reset_cache E s)
   \<and> \<not> is_available AVAIL_UCS_MANUF_DFLT_DESC (reset_cache E s)
   \<and> \<not> is_available AVAIL_FILTER_DATA (reset_cache E s)
   \<and> m_sorted_list (reset_cache E s) = []
   \<and> m_filter_data (reset_cache E s) = new_filter_data
   \<and> m_bios_count (reset_cache E s) = 0
   \<and> m_thread (reset_cache E s) = None
   \<and> \<not> m_started (reset_cache E s)
   \<and> reset_cache E s = new_persistent_data
   \<and> m_sorted_list (join E (fst (cache_data dp ti (reset_cache E s))))
       = m_sorted_list (join E (fst (cache_data dp ti new_persistent_data)))
   \<and> m_sorted_list (join E (fst (cache_data dp ti (reset_cache E s))))
       = m_sorted_list (do_cache_data E dp ti new_persistent_data)"
proof -
  have n: "\<not> m_started new_persistent_data" by (simp add: new_persistent_data_def)
  show ?thesis
    unfolding reset_cache_new join_fresh_sorted_list(1) [OF n]
    by (simp add: new_persistent_data_def is_available_def AVAIL_defs)
qed

theorem reset_then_rebuild_witness:
  "map (\<lambda>a. name (driver a)) (m_sorted_list (do_cache_data example_env [] [] new_persistent_data))
     = [''zalpha'', ''aclone'', ''beta'']
   \<and> is_available AVAIL_SORTED_LIST (do_cache_data example_env [] [] new_persistent_data)
   \<and> \<not> is_available AVAIL_SORTED_LIST
        (reset_cache example_env (do_cache_data example_env [] [] new_persistent_data))
   \<and> m_sorted_list (reset_cache example_env (do_cache_data example_env [] [] new_persistent_data))
       = []
   \<and> map (\<lambda>a. name (driver a))
        (m_sorted_list (join example_env (fst (cache_data [] []
          (reset_cache example_env (do_cache_data example_env [] [] new_persistent_data))))))
     = [''zalpha'', ''aclone'', ''beta'']"
proof -
  have v: "map (\<lambda>a. name (driver a))
      (m_sorted_list (do_cache_data example_env [] [] new_persistent_data))
     = [''zalpha'', ''aclone'', ''beta'']
   \<and> is_available AVAIL_SORTED_LIST (do_cache_data example_env [] [] new_persistent_data)"
    by code_simp
  note t = reset_then_rebuild [of example_env
      "do_cache_data example_env [] [] new_persistent_data" "[]" "[]"]
  from t have a: "\<not> is_available AVAIL_SORTED_LIST
        (reset_cache example_env (do_cache_data example_env [] [] new_persistent_data))"
    by blast
  from t have b: "m_sorted_list
      (reset_cache example_env (do_cache_data example_env [] [] new_persistent_data)) = []"
    by blast
  from t have c: "m_sorted_list (join example_env (fst (cache_data [] []
          (reset_cache example_env (do_cache_data example_env [] [] new_persistent_data)))))
     = m_sorted_list (do_cache_data example_env [] [] new_persistent_data)"
    by blast
  from v a b show ?thesis unfolding c by blast
qed

section \<open>The parent back-fill\<close>

text \<open>
  Claim C10.  \<open>populate_parents\<close> on a list ordered by shortname, for an entry \<open>i\<close>
  whose driver names a parent: if an entry \<open>j\<close> has exactly the parent's shortname, entry
  \<open>i\<close> gets the description and the reading of \<open>j\<close> as parent description and parent
  reading; if no entry has that shortname, it gets those of the first entry whose
  shortname is not below the parent's name, an unrelated record, since the result of the
  binary search is used without a test for equality; and only if every shortname is below
  the parent's name it gets the raw parent shortname, the parent reading untouched.
\<close>

theorem populate_parents_lookup:
  assumes "shortname_sorted xs" "i < length xs"
    and "has_parent (game_driver.parent (driver (xs ! i)))"
  shows "(\<forall>j<length xs. name (driver (xs ! j)) = game_driver.parent (driver (xs ! i)) \<longrightarrow>
            parent (populate_parents xs ! i) = description (xs ! j)
            \<and> reading_parent (populate_parents xs ! i) = reading_description (xs ! j))
     \<and> (\<forall>j<length xs.
            (\<forall>l<length xs. name (driver (xs ! l)) \<noteq> game_driver.parent (driver (xs ! i)))
            \<and> \<not> name (driver (xs ! j)) < game_driver.parent (driver (xs ! i))
            \<and> (\<forall>l<j. name (driver (xs ! l)) < game_driver.parent (driver (xs ! i))) \<longrightarrow>
            parent (populate_parents xs ! i) = description (xs ! j)
            \<and> reading_parent (populate_parents xs ! i) = reading_description (xs ! j))
     \<and> ((\<forall>j<length xs. name (driver (xs ! j)) < game_driver.parent (driver (xs ! i))) \<longrightarrow>
            parent (populate_parents xs ! i) = game_driver.parent (driver (xs ! i))
            \<and> reading_parent (populate_parents xs ! i) = reading_parent (xs ! i))"
proof (intro conjI allI impI)
  fix j assume j: "j < length xs"
    and e: "name (driver (xs ! j)) = game_driver.parent (driver (xs ! i))"
  from find_system_exact [OF assms(1) j e] j assms(2,3)
  show "parent (populate_parents xs ! i) = description (xs ! j)"
    and "reading_parent (populate_parents xs ! i) = reading_description (xs ! j)"
    by (simp_all add: populate_parents_nth parent_fill_def)
next
  fix j assume j: "j < length xs"
    and a: "(\<forall>l<length xs. name (driver (xs ! l)) \<noteq> game_driver.parent (driver (xs ! i)))
            \<and> \<not> name (driver (xs ! j)) < game_driver.parent (driver (xs ! i))
            \<and> (\<forall>l<j. name (driver (xs ! l)) < game_driver.parent (driver (xs ! i)))"
  from a have "find_system (game_driver.parent (driver (xs ! i))) xs = j"
    using find_system_first [OF assms(1) j] by blast
  with j assms(2,3)
  show "parent (populate_parents xs ! i) = description (xs ! j)"
    and "reading_parent (populate_parents xs ! i) = reading_description (xs ! j)"
    by (simp_all add: populate_parents_nth parent_fill_def)
next
  assume "\<forall>j<length xs. name (driver (xs ! j)) < game_driver.parent (driver (xs ! i))"
  from find_system_none [OF this] assms(2,3)
  show "parent (populate_parents xs ! i) = game_driver.parent (driver (xs ! i))"
    and "reading_parent (populate_parents xs ! i) = reading_parent (xs ! i)"
    by (simp_all add: populate_parents_nth parent_fill_def)
qed


theorem populate_parents_lookup_witness:
  "shortname_sorted titled_list
   \<and> parent (populate_parents titled_list ! 1) = ''Alpha JP''
   \<and> reading_parent (populate_parents titled_list ! 1) = ascii ''arufa''
   \<and> parent (populate_parents titled_list ! 3) = ''Orphan''
   \<and> parent (populate_parents titled_list ! 5) = ''zzzz''"
proof -
  let ?p = "\<lambda>i. game_driver.parent (driver (titled_list ! i))"
  have s: "shortname_sorted titled_list" by code_simp
  have l: "1 < length titled_list" "3 < length titled_list" "4 < length titled_list"
    "5 < length titled_list" by code_simp+
  have p: "has_parent (?p 1)" "has_parent (?p 3)" "has_parent (?p 5)" by code_simp+
  have e1: "name (driver (titled_list ! 4)) = ?p 1" by code_simp
  have d1: "description (titled_list ! 4) = ''Alpha JP''
    \<and> reading_description (titled_list ! 4) = ascii ''arufa''" by code_simp
  have e3: "(\<forall>l<length titled_list. name (driver (titled_list ! l)) \<noteq> ?p 3)
    \<and> \<not> name (driver (titled_list ! 3)) < ?p 3
    \<and> (\<forall>l<3. name (driver (titled_list ! l)) < ?p 3)" by code_simp
  have d3: "description (titled_list ! 3) = ''Orphan''" by code_simp
  have e5: "\<forall>j<length titled_list. name (driver (titled_list ! j)) < ?p 5" by code_simp
  have d5: "?p 5 = ''zzzz''" by code_simp
  from populate_parents_lookup [OF s l(1) p(1)] l(3) e1 d1
  have c1: "parent (populate_parents titled_list ! 1) = ''Alpha JP''
    \<and> reading_parent (populate_parents titled_list ! 1) = ascii ''arufa''"
    by metis
  from populate_parents_lookup [OF s l(2) p(2)] l(2) e3 d3
  have c3: "parent (populate_parents titled_list ! 3) = ''Orphan''"
    by metis
  from populate_parents_lookup [OF s l(4) p(3)] e5 d5
  have c5: "parent (populate_parents titled_list ! 5) = ''zzzz''"
    by metis
  from s c1 c3 c5 show ?thesis by blast
qed


section \<open>The title loader\<close>

text \<open>
  Claim C6, as amended.  A line whose shortname is that of record \<open>j\<close> of the
  shortname-ordered list, with a description that is empty after trimming or with record
  \<open>j\<close> already holding a description: no description changes (the first value is
  kept), one warning is printed for the description, and the line's reading is still
  processed: a reading field that is not empty after trimming is written into the record's
  three reading fields, an empty one prints a second warning, and only without a reading
  field the record stays as it was.  Every other record is unchanged, and the loop goes
  on with the next buffer.
\<close>

theorem duplicate_or_empty_description:
  assumes "shortname_sorted xs" "j < length xs"
    and "TAB \<in> set (line_of readbuf)"
    and "name (driver (xs ! j)) = upto_tab (line_of readbuf)"
    and "strtrimspace E (upto_tab (after_tab (line_of readbuf))) = [] \<or> description (xs ! j) \<noteq> []"
  shows "map description (fst (load_title_line E readbuf (xs, warns))) = map description xs
    \<and> fst (load_title_line E readbuf (xs, warns)) =
        xs[j := (if TAB \<in> set (after_tab (line_of readbuf))
                    \<and> strtrimspace E (upto_tab (after_tab (after_tab (line_of readbuf)))) \<noteq> []
                 then set_reading E
                        (strtrimspace E (upto_tab (after_tab (after_tab (line_of readbuf))))) (xs ! j)
                 else xs ! j)]
    \<and> snd (load_title_line E readbuf (xs, warns)) =
        warns
        @ [if strtrimspace E (upto_tab (after_tab (line_of readbuf))) = []
           then Empty_description (upto_tab (line_of readbuf))
           else Multiple_descriptions (upto_tab (line_of readbuf)) (description (xs ! j))
                  (strtrimspace E (upto_tab (after_tab (line_of readbuf))))]
        @ (if TAB \<in> set (after_tab (line_of readbuf))
              \<and> strtrimspace E (upto_tab (after_tab (after_tab (line_of readbuf)))) = []
           then [Empty_reading (upto_tab (line_of readbuf))] else [])
    \<and> load_title_lines E (readbuf # rest) (xs, warns) =
        load_title_lines E rest (load_title_line E readbuf (xs, warns))"
proof -
  from find_system_exact [OF assms(1,2,4)]
  have f: "find_system (upto_tab (line_of readbuf)) xs = j" .
  note eq = load_title_line_found [OF assms(3) f assms(2,4), of E warns]
  have a: "fst (load_title_line E readbuf (xs, warns)) =
        xs[j := (if TAB \<in> set (after_tab (line_of readbuf))
                    \<and> strtrimspace E (upto_tab (after_tab (after_tab (line_of readbuf)))) \<noteq> []
                 then set_reading E
                        (strtrimspace E (upto_tab (after_tab (after_tab (line_of readbuf))))) (xs ! j)
                 else xs ! j)]"
    using assms(5) unfolding eq by (auto simp add: Let_def)
  have b: "snd (load_title_line E readbuf (xs, warns)) =
        warns
        @ [if strtrimspace E (upto_tab (after_tab (line_of readbuf))) = []
           then Empty_description (upto_tab (line_of readbuf))
           else Multiple_descriptions (upto_tab (line_of readbuf)) (description (xs ! j))
                  (strtrimspace E (upto_tab (after_tab (line_of readbuf))))]
        @ (if TAB \<in> set (after_tab (line_of readbuf))
              \<and> strtrimspace E (upto_tab (after_tab (after_tab (line_of readbuf)))) = []
           then [Empty_reading (upto_tab (line_of readbuf))] else [])"
    using assms(5) unfolding eq by (auto simp add: Let_def)
  have c: "map description (fst (load_title_line E readbuf (xs, warns))) = map description xs"
    unfolding a by (rule map_update_same) (simp add: set_reading_def)
  from a b c load_title_lines_Cons show ?thesis by blast
qed

theorem duplicate_or_empty_description_witness:
  "shortname_sorted two_titles_list
   \<and> name (driver (two_titles_list ! 4)) = ''zalpha''
   \<and> description (two_titles_list ! 4) = ''Alpha JP''
   \<and> fst (load_title_line titles_env (titles_file ! 2) (two_titles_list, [])) = two_titles_list
   \<and> snd (load_title_line titles_env (titles_file ! 2) (two_titles_list, []))
        = [Multiple_descriptions ''zalpha'' ''Alpha JP'' ''Other Alpha'']"
proof -
  let ?buf = "titles_file ! 2"
  have h1: "shortname_sorted two_titles_list" by code_simp
  have h2: "4 < length two_titles_list" by code_simp
  have h3: "TAB \<in> set (line_of ?buf)" by code_simp
  have h4: "name (driver (two_titles_list ! 4)) = upto_tab (line_of ?buf)" by code_simp
  have h5: "strtrimspace titles_env (upto_tab (after_tab (line_of ?buf))) = []
      \<or> description (two_titles_list ! 4) \<noteq> []" by code_simp
  have v1: "upto_tab (line_of ?buf) = ''zalpha''" by code_simp
  have v2: "description (two_titles_list ! 4) = ''Alpha JP''" by code_simp
  have v3: "strtrimspace titles_env (upto_tab (after_tab (line_of ?buf))) = ''Other Alpha''"
    by code_simp
  have v4: "TAB \<notin> set (after_tab (line_of ?buf))" by code_simp
  from duplicate_or_empty_description [OF h1 h2 h3 h4 h5, of "[]" "[]"]
  have "fst (load_title_line titles_env ?buf (two_titles_list, [])) = two_titles_list
    \<and> snd (load_title_line titles_env ?buf (two_titles_list, []))
        = [Multiple_descriptions ''zalpha'' ''Alpha JP'' ''Other Alpha'']"
    by (simp add: v1 v2 v3 v4)
  with h1 h4 v1 v2 show ?thesis by simp
qed

text \<open>
  The claim as stated fails: the line \<open>aclone<TAB> <TAB>kuron\<close> has an empty
  description, and the record of \<open>aclone\<close> gets the reading \<open>kuron\<close>.
\<close>

theorem empty_description_counterexample:
  "name (driver (untitled_list ! 1)) = upto_tab (line_of (titles_file ! 3))
   \<and> strtrimspace titles_env (upto_tab (after_tab (line_of (titles_file ! 3)))) = []
   \<and> reading_description (untitled_list ! 1) = []
   \<and> reading_description (fst (load_title_line titles_env (titles_file ! 3) (untitled_list, [])) ! 1)
        = ascii ''kuron''
   \<and> fst (load_title_line titles_env (titles_file ! 3) (untitled_list, [])) \<noteq> untitled_list"
  by code_simp

text \<open>
  Claim C7, as amended.  A buffer without a tab before its line terminator, and a line
  whose shortname no record of the list has, leave the list and the warnings as they
  were.  \<open>load_titles\<close> ends by giving every record whose description is still empty
  its driver's full name; the drivers are those of the input list.  So every record whose
  full name is not empty has a description that is not empty.
\<close>

theorem load_titles_skip_and_backfill:
  "(TAB \<notin> set (line_of readbuf) \<longrightarrow> load_title_line E readbuf st = st)
   \<and> ((\<forall>a\<in>set (fst st). name (driver a) \<noteq> upto_tab (line_of readbuf))
        \<longrightarrow> load_title_line E readbuf st = st)
   \<and> fst (load_titles E file xs) = map fill_description (fst (load_title_lines E file (xs, [])))
   \<and> map driver (fst (load_titles E file xs)) = map driver xs
   \<and> (\<forall>a\<in>set (fst (load_titles E file xs)). fullname (driver a) \<noteq> [] \<longrightarrow> description a \<noteq> [])"
proof (intro conjI impI ballI)
  assume "TAB \<notin> set (line_of readbuf)"
  then show "load_title_line E readbuf st = st" by (rule load_title_line_no_tab)
next
  assume "\<forall>a\<in>set (fst st). name (driver a) \<noteq> upto_tab (line_of readbuf)"
  then show "load_title_line E readbuf st = st" by (rule load_title_line_no_match)
next
  show "fst (load_titles E file xs) = map fill_description (fst (load_title_lines E file (xs, [])))"
    by (simp add: load_titles_def Let_def)
next
  show "map driver (fst (load_titles E file xs)) = map driver xs"
    by (rule load_titles_driver)
next
  fix a assume "a \<in> set (fst (load_titles E file xs))" and n: "fullname (driver a) \<noteq> []"
  then obtain b where "a = fill_description b"
    by (auto simp add: load_titles_def Let_def)
  with n show "description a \<noteq> []"
    by (auto simp add: fill_description_def split: if_splits)
qed


theorem load_titles_skip_and_backfill_witness:
  "TAB \<notin> set (line_of (titles_file ! 5))
   \<and> load_title_line titles_env (titles_file ! 5) (two_titles_list, []) = (two_titles_list, [])
   \<and> list_all (\<lambda>a. name (driver a) \<noteq> upto_tab (line_of (titles_file ! 4))) two_titles_list
   \<and> load_title_line titles_env (titles_file ! 4) (two_titles_list, []) = (two_titles_list, [])
   \<and> list_all (\<lambda>a. fullname (driver a) \<noteq> []) (fst (load_titles titles_env titles_file untitled_list))
   \<and> list_all (\<lambda>a. description a \<noteq> []) (fst (load_titles titles_env titles_file untitled_list))"
proof -
  have h1: "TAB \<notin> set (line_of (titles_file ! 5))" by code_simp
  have h2: "list_all (\<lambda>a. name (driver a) \<noteq> upto_tab (line_of (titles_file ! 4))) two_titles_list"
    by code_simp
  have h3: "list_all (\<lambda>a. fullname (driver a) \<noteq> [])
      (fst (load_titles titles_env titles_file untitled_list))"
    by code_simp
  from load_titles_skip_and_backfill [of "titles_file ! 5" titles_env "(two_titles_list, [])"] h1
  have c1: "load_title_line titles_env (titles_file ! 5) (two_titles_list, []) = (two_titles_list, [])"
    by blast
  from load_titles_skip_and_backfill [of "titles_file ! 4" titles_env "(two_titles_list, [])"] h2
  have c2: "load_title_line titles_env (titles_file ! 4) (two_titles_list, []) = (two_titles_list, [])"
    unfolding list_all_iff by simp
  from load_titles_skip_and_backfill [of _ titles_env _ titles_file untitled_list] h3
  have c3: "list_all (\<lambda>a. description a \<noteq> []) (fst (load_titles titles_env titles_file untitled_list))"
    unfolding list_all_iff by blast
  from h1 h2 h3 c1 c2 c3 show ?thesis by blast
qed

text \<open>
  The claim as stated fails for a system whose full name is empty: its description is
  still empty when \<open>load_titles\<close> returns.
\<close>

theorem empty_fullname_counterexample:
  "fullname (driver_list unnamed_env ! 1) = []
   \<and> description
        (fst (load_titles unnamed_env []
               (m_sorted_list (populate_list unnamed_env False new_persistent_data))) ! 1) = []"
  by code_simp


section \<open>The sorted list\<close>







section \<open>The search ranker\<close>

text \<open>
  Claim C2, as amended.  \<open>populate_search\<close> returns whenever the sorted list is
  published or the search list is already filled.  The score it gives an entry is the
  spec's rule: later fields are skipped once the score is 0, and a later field's distance
  replaces the score only when it is lower.  Once the shortname stage is published, a
  query whose normalized form is an entry's normalized shortname, at distance 0 from
  itself, scores 0 for that entry.  The result carries these scores, is sorted ascending
  by score, and entries of equal score keep the order in which the call found them: the
  order of the sorted list when the search list was empty, the order left by the previous
  search otherwise.
\<close>

theorem search_ranking:
  "(is_available AVAIL_SORTED_LIST pd \<or> m_searchlist m \<noteq> [] \<longrightarrow> populate_search E pd m \<noteq> None)
   \<and> (\<forall>fs. foldl spec_relax 0 fs = 0)
   \<and> (\<forall>m'. populate_search E pd m = Some m' \<longrightarrow>
        m_searched_fields m' = searched_fields pd (m_searched_fields m)
        \<and> (\<forall>sys. search_score E (m_searched_fields m') (ucs E (m_search m)) sys
                  = spec_score E (m_searched_fields m') (ucs E (m_search m)) sys)
        \<and> (\<forall>sys. is_available AVAIL_UCS_SHORTNAME pd
                  \<and> ucs_shortname sys = ucs E (m_search m)
                  \<and> edit_distance E (ucs E (m_search m)) (ucs E (m_search m)) = 0
                \<longrightarrow> search_score E (m_searched_fields m') (ucs E (m_search m)) sys = 0)
        \<and> map fst (m_searchlist m')
            = map (\<lambda>i. search_score E (m_searched_fields m') (ucs E (m_search m))
                         (m_sorted_list pd ! i))
                (map snd (m_searchlist m'))
        \<and> sorted (map fst (m_searchlist m'))
        \<and> (\<forall>k. map snd (filter (\<lambda>e. fst e = k) (m_searchlist m'))
                = filter (\<lambda>i. search_score E (m_searched_fields m') (ucs E (m_search m))
                               (m_sorted_list pd ! i) = k)
                    (search_order pd m)))"
proof (intro conjI allI impI)
  assume "is_available AVAIL_SORTED_LIST pd \<or> m_searchlist m \<noteq> []"
  from ensure_searchlist_returns [OF this]
  show "populate_search E pd m \<noteq> None"
    by (auto simp add: populate_search_def Let_def split: option.splits)
next
  fix fs show "foldl spec_relax 0 fs = 0" by (rule spec_relax_zero)
next
  fix m' assume a: "populate_search E pd m = Some m'"
  note r = populate_search_Some [OF a]
  from r show "m_searched_fields m' = searched_fields pd (m_searched_fields m)" by simp
  show "search_score E (m_searched_fields m') (ucs E (m_search m)) sys
      = spec_score E (m_searched_fields m') (ucs E (m_search m)) sys" for sys
    by (rule search_score_spec)
  show "search_score E (m_searched_fields m') (ucs E (m_search m)) sys = 0"
    if "is_available AVAIL_UCS_SHORTNAME pd
        \<and> ucs_shortname sys = ucs E (m_search m)
        \<and> edit_distance E (ucs E (m_search m)) (ucs E (m_search m)) = 0" for sys
  proof (rule search_score_exact)
    from that r show "m_searched_fields m' AND AVAIL_UCS_SHORTNAME \<noteq> 0"
      by (simp add: searched_fields_shortname)
    from that show "edit_distance E (ucs E (m_search m)) (ucs_shortname sys) = 0" by simp
  qed
  from r show "map fst (m_searchlist m')
      = map (\<lambda>i. search_score E (m_searched_fields m') (ucs E (m_search m))
                   (m_sorted_list pd ! i))
          (map snd (m_searchlist m'))"
    by (simp only: ranked_scores)
  from r show "sorted (map fst (m_searchlist m'))"
    by (simp only: sorted_sort_key)
  from r show "map snd (filter (\<lambda>e. fst e = k) (m_searchlist m'))
      = filter (\<lambda>i. search_score E (m_searched_fields m') (ucs E (m_search m))
                     (m_sorted_list pd ! i) = k)
          (search_order pd m)" for k
    by (simp only: ranked_stable)
qed

theorem search_ranking_witness:
  "is_available AVAIL_SORTED_LIST shortnames_published
   \<and> is_available AVAIL_UCS_SHORTNAME shortnames_published
   \<and> ucs_shortname (m_sorted_list shortnames_published ! 2) = ucs example_env ''beta''
   \<and> edit_distance example_env (ucs example_env ''beta'') (ucs example_env ''beta'') = 0
   \<and> populate_search example_env shortnames_published exact_search
       = Some \<lparr> m_search = ''beta'', m_searchlist = [(0, 2), (5, 0), (6, 1)],
                m_searched_fields = 4 \<rparr>
   \<and> search_score example_env 4 (ucs example_env ''beta'')
        (m_sorted_list shortnames_published ! 2) = 0
   \<and> sorted (map fst [(0::real, 2::nat), (5, 0), (6, 1)])"
proof -
  let ?m' = "\<lparr> m_search = ''beta'', m_searchlist = [(0, 2), (5, 0), (6, 1)],
                m_searched_fields = 4 \<rparr>"
  have h1: "is_available AVAIL_SORTED_LIST shortnames_published" by code_simp
  have h2: "is_available AVAIL_UCS_SHORTNAME shortnames_published
   \<and> ucs_shortname (m_sorted_list shortnames_published ! 2) = ucs example_env (m_search exact_search)
   \<and> edit_distance example_env (ucs example_env (m_search exact_search))
        (ucs example_env (m_search exact_search)) = 0"
    by code_simp
  have h3: "populate_search example_env shortnames_published exact_search = Some ?m'"
    by code_simp
  have q: "m_search exact_search = ''beta''" by (simp add: exact_search_def)
  note t = search_ranking [of shortnames_published exact_search example_env]
  from t h3 h2 have c1: "search_score example_env (m_searched_fields ?m')
      (ucs example_env (m_search exact_search)) (m_sorted_list shortnames_published ! 2) = 0"
    by blast
  from t h3 have c2: "sorted (map fst (m_searchlist ?m'))" by blast
  from h1 h2 h3 c1 c2 show ?thesis by (simp add: q)
qed

text \<open>
  The claim as stated fails on a second search: the sorted list is zalpha, aclone, beta;
  the search for "ac" leaves aclone in front of zalpha, and the following search for "x",
  which matches nothing and scores both 6, keeps aclone in front of zalpha, against the
  order of the sorted list.
\<close>

theorem repeated_search_counterexample:
  "map (\<lambda>a. name (driver a)) (m_sorted_list shortnames_published)
       = [''zalpha'', ''aclone'', ''beta'']
   \<and> populate_search example_env shortnames_published first_search
       = Some (second_search\<lparr> m_search := ''ac'' \<rparr>)
   \<and> populate_search example_env shortnames_published second_search
       = Some \<lparr> m_search = ''x'', m_searchlist = [(4, 2), (6, 1), (6, 0)],
                m_searched_fields = 4 \<rparr>"
  by code_simp


end
